theory Spec2Isabelle
  imports Complex_Main "HOL-Library.Word" "HOL-Library.Signed_Division"
begin

unbundle bit_operations_syntax

section \<open>Numeric helpers of \<^verbatim>\<open>triton/Analysis/Utility.h\<close>\<close>

text \<open>
  The helpers are templates over an integer type \<^verbatim>\<open>Int\<close>. A \<open>B\<close>-bit integer type is
  modelled as \<open>'a word\<close> with \<open>LENGTH('a) = B\<close>; where the C++ operator depends on
  the signedness of the type (division), the signedness is a parameter.
\<close>

datatype int_kind = Signed | Unsigned

subsection \<open>\<^verbatim>\<open>product\<close>\<close>

text \<open>
  \<^verbatim>\<open>std::accumulate(arr.begin(), arr.end(), 1, std::multiplies{})\<close>: the accumulator
  of \<^verbatim>\<open>std::accumulate\<close> has the type of the initial value, and the literal \<^verbatim>\<open>1\<close> is
  an \<^verbatim>\<open>int\<close> (32 bits). Each step converts the accumulator to \<^verbatim>\<open>Int\<close> (the usual
  arithmetic conversions, for an \<^verbatim>\<open>Int\<close> of at least 32 bits), multiplies there, and
  converts the result back to \<^verbatim>\<open>int\<close>, keeping the low 32 bits. The value returned is
  the final \<^verbatim>\<open>int\<close> converted to \<^verbatim>\<open>Int\<close>.
\<close>

type_synonym c_int = "32 word"

definition multiplies_step :: "'a::len word \<Rightarrow> c_int \<Rightarrow> c_int" where
  "multiplies_step x acc = ucast ((scast acc :: 'a word) * x)"

definition product :: "'a::len word list \<Rightarrow> 'a word" where
  "product arr = scast (fold multiplies_step arr (1 :: c_int))"

subsection \<open>\<^verbatim>\<open>ceil\<close>\<close>

text \<open>
  \<^verbatim>\<open>(m + n - 1) / n\<close>. C++ division truncates towards zero (\<open>sdiv\<close> on a signed type,
  \<open>div\<close> on an unsigned one) and is undefined for a zero divisor, which is \<open>None\<close> here.
  The sum wraps around in the model.
\<close>

definition c_div :: "int_kind \<Rightarrow> 'a::len word \<Rightarrow> 'a word \<Rightarrow> 'a word" where
  "c_div k a b =
     (case k of
        Signed \<Rightarrow> word_of_int (sint a sdiv sint b)
      | Unsigned \<Rightarrow> a div b)"

definition ceil :: "int_kind \<Rightarrow> 'a::len word \<Rightarrow> 'a word \<Rightarrow> 'a word option" where
  "ceil k m n = (if n = 0 then None else Some (c_div k (m + n - 1) n))"

subsection \<open>\<^verbatim>\<open>reorder\<close>\<close>

text \<open>
  \<^verbatim>\<open>result[it.index()] = input[it.value()]\<close> for every enumerated element of
  \<^verbatim>\<open>order\<close>, on a \<^verbatim>\<open>result\<close> of \<^verbatim>\<open>rank\<close> value-initialised elements. The assertion
  \<^verbatim>\<open>input.size() == rank\<close> and the range check of \<^verbatim>\<open>ArrayRef::operator[]\<close> are the
  \<open>None\<close> branches.
\<close>

fun reorder_loop :: "'a list \<Rightarrow> (nat \<times> nat) list \<Rightarrow> 'a list \<Rightarrow> 'a list option" where
  "reorder_loop input [] result = Some result"
| "reorder_loop input ((i, v) # rest) result =
     (if v < length input then reorder_loop input rest (result[i := input ! v])
      else None)"

definition reorder :: "'a::zero list \<Rightarrow> nat list \<Rightarrow> 'a list option" where
  "reorder input order =
     (let rank = length order in
      if length input \<noteq> rank then None
      else reorder_loop input (enumerate 0 order) (replicate rank 0))"

text \<open>
  The inverse of a permutation given as a list, following the spec's \<open>\<sigma>\<^sup>-\<^sup>1\<close>:
  position \<open>i\<close> holds the index at which \<open>order\<close> holds \<open>i\<close>.
\<close>

definition index_of :: "nat \<Rightarrow> nat list \<Rightarrow> nat" where
  "index_of i order = length (takeWhile (\<lambda>v. v \<noteq> i) order)"

definition inverse_order :: "nat list \<Rightarrow> nat list" where
  "inverse_order order = map (\<lambda>i. index_of i order) [0..<length order]"

subsection \<open>\<^verbatim>\<open>highestPowOf2Divisor\<close>\<close>

text \<open>
  \<^verbatim>\<open>sizeof(T) * 8\<close> is the width of the type, \<open>LENGTH('a)\<close>. A value of a signed \<^verbatim>\<open>T\<close> is
  the word read by \<open>sint\<close>, a value of an unsigned \<^verbatim>\<open>T\<close> the word read by \<open>unat\<close>; the
  bitwise operations are the same on both. The subtraction \<^verbatim>\<open>n - 1\<close> wraps around in the
  model; in C++ it overflows only for a signed \<^verbatim>\<open>T\<close> and the least value of the type.
\<close>

definition highestPowOf2Divisor :: "'a::len word \<Rightarrow> 'a word" where
  "highestPowOf2Divisor n =
     (if n = 0 then push_bit (LENGTH('a) - 2) 1
      else n AND NOT (n - 1))"

section \<open>\<^verbatim>\<open>ReduceOpHelper\<close>: the constructor\<close>

text \<open>
  Attributes, element types and operations are opaque handles. A reduction operation is
  given by what the constructor reads from it: the operation handle, the axis and the
  ranked tensor types of its operands (\<^verbatim>\<open>getInputTypes\<close>; \<^verbatim>\<open>getOperands()[0].getType()\<close>
  is the first of them).
\<close>

type_synonym Attribute = nat

type_synonym Type = nat

record RankedTensorType =
  getShape :: "int list"
  getEncoding :: Attribute
  getElementType :: Type

record ReduceOp =
  getOperation :: nat
  getAxis :: nat
  getInputTypes :: "RankedTensorType list"

definition getElementTypes :: "ReduceOp \<Rightarrow> Type list" where
  "getElementTypes rop = map getElementType (getInputTypes rop)"

record ReduceOpHelper =
  op :: nat
  srcShape :: "int list"
  srcEncoding :: Attribute
  srcElementTypes :: "Type list"
  axis :: int

text \<open>
  The loop over \<^verbatim>\<open>rop.getInputTypes()\<close> calls \<^verbatim>\<open>rop.emitError()\<close> once for a shape that
  differs from \<^verbatim>\<open>srcShape\<close> and once for an encoding that differs from \<^verbatim>\<open>srcEncoding\<close>.
  The diagnostics emitted so far are a list of messages, threaded through the loop.
  Reading operand 0 of an operation without operands is out of range: \<open>None\<close>.
\<close>

fun checkInputTypes ::
  "int list \<Rightarrow> Attribute \<Rightarrow> RankedTensorType list \<Rightarrow> string list \<Rightarrow> string list" where
  "checkInputTypes shape encoding [] diags = diags"
| "checkInputTypes shape encoding (t # ts) diags =
     (let diags1 = (if getShape t \<noteq> shape then diags @ [''shape mismatch''] else diags);
          diags2 = (if getEncoding t \<noteq> encoding then diags1 @ [''encoding mismatch''] else diags1)
      in checkInputTypes shape encoding ts diags2)"

definition newReduceOpHelper :: "ReduceOp \<Rightarrow> string list \<Rightarrow> (ReduceOpHelper \<times> string list) option" where
  "newReduceOpHelper rop diags =
     (case getInputTypes rop of
        [] \<Rightarrow> None
      | firstTy # _ \<Rightarrow>
          Some (\<lparr>op = getOperation rop,
                 srcShape = getShape firstTy,
                 srcEncoding = getEncoding firstTy,
                 srcElementTypes = getElementTypes rop,
                 axis = int (getAxis rop)\<rparr>,
                checkInputTypes (getShape firstTy) (getEncoding firstTy) (getInputTypes rop) diags))"

section \<open>\<^verbatim>\<open>CallGraph<T>\<close>\<close>

subsection \<open>State\<close>

text \<open>
  \<^verbatim>\<open>triton::FuncOp\<close> and \<^verbatim>\<open>triton::CallOp\<close> wrap an \<^verbatim>\<open>Operation *\<close>; they are modelled by
  the address, a natural number, with \<open>0\<close> for the null handle. The field \<^verbatim>\<open>callGraph\<close>, a
  \<^verbatim>\<open>DenseMap\<close> from functions to vectors of (call site, callee) pairs, is an association
  list that is only ever read through \<open>map_of\<close>; each vector keeps its insertion order.
  \<^verbatim>\<open>callGraph[funcOp]\<close> on an absent key yields an empty vector (\<open>edges_of\<close>; the entry
  that \<^verbatim>\<open>operator[]\<close> inserts on the way is an empty vector as well, so later reads do not
  see it). \<open>callSites\<close> lists every recorded call site. A vector read from the map is a
  value of the model; the C++ iterates it through a reference into the map, and whether
  that reference survives the insertions made meanwhile is a matter of the map's memory
  layout, which the model leaves out.
\<close>

type_synonym FuncOp = nat

type_synonym CallOp = nat

datatype WalkOrder = PreOrder | PostOrder

datatype fatal_error = CycleDetected

record CallGraph =
  callGraph :: "(FuncOp \<times> (CallOp \<times> FuncOp) list) list"
  roots :: "FuncOp list"

definition edges_of :: "CallGraph \<Rightarrow> FuncOp \<Rightarrow> (CallOp \<times> FuncOp) list" where
  "edges_of cg f = (case map_of (callGraph cg) f of None \<Rightarrow> [] | Some es \<Rightarrow> es)"

fun callSitesOf :: "(FuncOp \<times> (CallOp \<times> FuncOp) list) list \<Rightarrow> CallOp list" where
  "callSitesOf [] = []"
| "callSitesOf ((f, es) # m) = map fst es @ callSitesOf m"

definition callSites :: "CallGraph \<Rightarrow> CallOp list" where
  "callSites cg = callSitesOf (callGraph cg)"

subsection \<open>\<^verbatim>\<open>build\<close>\<close>

text \<open>
  \<^verbatim>\<open>moduleOp.walk\<close> visits every operation of the module once; the module is the list of
  the visited operations. Of an operation the callback reads the enclosing function
  (\<^verbatim>\<open>getParentOfType<triton::FuncOp>()\<close>, null for a top-level operation) and its kind: a
  function, a \<^verbatim>\<open>triton::CallOp\<close> together with the function its callee resolves to (if
  any), another operation with the call interface (on which \<^verbatim>\<open>cast<triton::CallOp>\<close>
  fails: \<open>None\<close>), or anything else.
\<close>

datatype OpKind = FuncOpKind | CallOpKind "FuncOp option" | OtherCallKind | OtherOpKind

record Operation =
  opHandle :: nat
  parentFuncOp :: FuncOp
  opKind :: OpKind

fun emplace_back ::
  "FuncOp \<Rightarrow> CallOp \<times> FuncOp \<Rightarrow> (FuncOp \<times> (CallOp \<times> FuncOp) list) list
     \<Rightarrow> (FuncOp \<times> (CallOp \<times> FuncOp) list) list" where
  "emplace_back parent e [] = [(parent, [e])]"
| "emplace_back parent e ((f, es) # m) =
     (if f = parent then (f, es @ [e]) # m else (f, es) # emplace_back parent e m)"

definition build_op :: "Operation \<Rightarrow> CallGraph \<Rightarrow> CallGraph option" where
  "build_op operation cg =
     (let parent = parentFuncOp operation;
          addRoot = (\<lambda>cg'. if parent = 0 \<and> opKind operation = FuncOpKind
                           then cg'\<lparr>roots := roots cg' @ [opHandle operation]\<rparr> else cg')
      in case opKind operation of
           CallOpKind (Some funcOp) \<Rightarrow>
             Some (addRoot (cg\<lparr>callGraph := emplace_back parent (opHandle operation, funcOp) (callGraph cg)\<rparr>))
         | CallOpKind None \<Rightarrow> Some (addRoot cg)
         | OtherCallKind \<Rightarrow> None
         | _ \<Rightarrow> Some (addRoot cg))"

fun build_ops :: "Operation list \<Rightarrow> CallGraph \<Rightarrow> CallGraph option" where
  "build_ops [] cg = Some cg"
| "build_ops (operation # rest) cg =
     (case build_op operation cg of None \<Rightarrow> None | Some cg' \<Rightarrow> build_ops rest cg')"

definition build :: "Operation list \<Rightarrow> CallGraph option" where
  "build moduleOps = build_ops moduleOps \<lparr>callGraph = [], roots = []\<rparr>"

subsection \<open>\<^verbatim>\<open>walk\<close> and \<^verbatim>\<open>doWalk\<close>\<close>

text \<open>
  The hooks \<^verbatim>\<open>updateEdgeFn\<close> and \<^verbatim>\<open>updateNodeFn\<close> act on what they reach by reference (what
  they capture by reference, and \<^verbatim>\<open>funcMap\<close>): a state of type \<open>'s\<close> that they transform.
  Which calls are made, and in which order, does not depend on that state. The template
  parameters \<^verbatim>\<open>UpdateEdgeOrder\<close> and \<^verbatim>\<open>UpdateNodeOrder\<close> are the arguments \<open>eo\<close> and \<open>no\<close>.

  \<open>updateEdgeCalls\<close> is the three statements of lines 199 to 205: the call under
  \<^verbatim>\<open>if constexpr (UpdateEdgeOrder == WalkOrder::PreOrder)\<close>, the unconditional call, and
  the call under \<^verbatim>\<open>if constexpr (UpdateEdgeOrder == WalkOrder::PostOrder)\<close>; all three stand
  before the recursive call of line 206.

  The recursive call \<^verbatim>\<open>doWalk(callee, visited, updateEdgeFn, updateNodeFn)\<close> names the
  template without template arguments, so the two orders take their defaults,
  \<^verbatim>\<open>WalkOrder::PreOrder\<close>, whatever the orders of the running instance are.
  \<^verbatim>\<open>visited\<close> is passed by reference: it is threaded through together with the hook state.
  \<^verbatim>\<open>llvm::report_fatal_error\<close> ends the walk with \<open>Inl CycleDetected\<close>.
\<close>

definition updateEdgeCalls ::
  "WalkOrder \<Rightarrow> (CallOp \<Rightarrow> FuncOp \<Rightarrow> 's \<Rightarrow> 's) \<Rightarrow> CallOp \<Rightarrow> FuncOp \<Rightarrow> 's \<Rightarrow> 's" where
  "updateEdgeCalls eo updateEdgeFn callOp callee s =
     (let s1 = (if eo = PreOrder then updateEdgeFn callOp callee s else s);
          s2 = updateEdgeFn callOp callee s1;
          s3 = (if eo = PostOrder then updateEdgeFn callOp callee s2 else s2)
      in s3)"

function
  doWalk :: "WalkOrder \<Rightarrow> WalkOrder \<Rightarrow> CallGraph \<Rightarrow> (CallOp \<Rightarrow> FuncOp \<Rightarrow> 's \<Rightarrow> 's)
               \<Rightarrow> (FuncOp \<Rightarrow> 's \<Rightarrow> 's) \<Rightarrow> FuncOp \<Rightarrow> CallOp set \<times> 's
               \<Rightarrow> fatal_error + CallOp set \<times> 's"
  and doWalk_edges :: "WalkOrder \<Rightarrow> CallGraph \<Rightarrow> (CallOp \<Rightarrow> FuncOp \<Rightarrow> 's \<Rightarrow> 's)
               \<Rightarrow> (FuncOp \<Rightarrow> 's \<Rightarrow> 's) \<Rightarrow> (CallOp \<times> FuncOp) list \<Rightarrow> CallOp set \<times> 's
               \<Rightarrow> fatal_error + CallOp set \<times> 's"
where
  "doWalk eo no cg updateEdgeFn updateNodeFn funcOp (visited, s) =
     (case doWalk_edges eo cg updateEdgeFn updateNodeFn (edges_of cg funcOp)
             (visited, if no = PreOrder then updateNodeFn funcOp s else s) of
        Inl e \<Rightarrow> Inl e
      | Inr (visited', s') \<Rightarrow>
          Inr (visited', if no = PostOrder then updateNodeFn funcOp s' else s'))"
| "doWalk_edges eo cg updateEdgeFn updateNodeFn [] st = Inr st"
| "doWalk_edges eo cg updateEdgeFn updateNodeFn ((callOp, callee) # rest) (visited, s) =
     (if callOp \<in> visited then Inl CycleDetected
      else
        case doWalk PreOrder PreOrder cg updateEdgeFn updateNodeFn callee
               (insert callOp visited, updateEdgeCalls eo updateEdgeFn callOp callee s) of
          Inl e \<Rightarrow> Inl e
        | Inr (visited', s') \<Rightarrow>
            doWalk_edges eo cg updateEdgeFn updateNodeFn rest (visited' - {callOp}, s'))"
  by pat_completeness auto

text \<open>
  Termination: every recursive call of \<open>doWalk\<close> happens under one more call site in
  \<open>visited\<close>, and \<open>doWalk\<close> returns \<open>visited\<close> as it received it.
\<close>

lemma callSitesOf_entry: "(f, es) \<in> set m \<Longrightarrow> (c, g) \<in> set es \<Longrightarrow> c \<in> set (callSitesOf m)"
  by (induction m) force+

lemma edges_of_callSites: "(c, g) \<in> set (edges_of cg f) \<Longrightarrow> c \<in> set (callSites cg)"
proof -
  assume a: "(c, g) \<in> set (edges_of cg f)"
  then obtain es where es: "map_of (callGraph cg) f = Some es" "(c, g) \<in> set es"
    by (cases "map_of (callGraph cg) f") (auto simp: edges_of_def)
  from es(1) have "(f, es) \<in> set (callGraph cg)" by (rule map_of_SomeD)
  with es(2) show ?thesis unfolding callSites_def by (rule callSitesOf_entry [rotated])
qed

lemma doWalk_visited_dom:
  "doWalk_doWalk_edges_dom (Inl (eo, no, cg, ef, nf, f, st)) \<Longrightarrow>
     (\<forall>V' s'. doWalk eo no cg ef nf f st = Inr (V', s') \<longrightarrow> V' = fst st)"
  "doWalk_doWalk_edges_dom (Inr (eo, cg, ef, nf, es, st)) \<Longrightarrow>
     (\<forall>V' s'. doWalk_edges eo cg ef nf es st = Inr (V', s') \<longrightarrow> V' = fst st)"
proof (induct eo no cg ef nf f st and eo cg ef nf es st
       rule: doWalk_doWalk_edges.pinduct)
  case (1 eo no cg updateEdgeFn updateNodeFn funcOp visited s)
  then show ?case
    by (auto simp: doWalk.psimps split: sum.splits prod.splits)
next
  case (2 eo cg updateEdgeFn updateNodeFn st)
  then show ?case by (simp add: doWalk_edges.psimps)
next
  case (3 eo cg updateEdgeFn updateNodeFn callOp callee rest visited s)
  show ?case
  proof (intro allI impI)
    fix V' s'
    assume r: "doWalk_edges eo cg updateEdgeFn updateNodeFn ((callOp, callee) # rest) (visited, s)
                 = Inr (V', s')"
    note ps = doWalk_edges.psimps(2) [OF 3(1)]
    from r ps have nin: "callOp \<notin> visited" by (auto split: if_splits)
    from r ps nin obtain V2 s2 where
      d: "doWalk PreOrder PreOrder cg updateEdgeFn updateNodeFn callee
            (insert callOp visited, updateEdgeCalls eo updateEdgeFn callOp callee s) = Inr (V2, s2)"
      and e: "doWalk_edges eo cg updateEdgeFn updateNodeFn rest (V2 - {callOp}, s2) = Inr (V', s')"
      by (auto split: sum.splits)
    from 3(2) [OF nin] d have "V2 = insert callOp visited" by simp
    moreover from 3(3) [OF nin d refl] e have "V' = V2 - {callOp}" by simp
    ultimately show "V' = fst (visited, s)" using nin by simp
  qed
qed

termination doWalk
proof (relation "measures
    [\<lambda>x. case x of
        Inl (eo, no, cg, ef, nf, f, (V, s)) \<Rightarrow> card (set (callSites cg) - V)
      | Inr (eo, cg, ef, nf, es, (V, s)) \<Rightarrow> card ((set (callSites cg) \<union> fst ` set es) - V),
     \<lambda>x. case x of Inl _ \<Rightarrow> 1 | Inr _ \<Rightarrow> 0,
     \<lambda>x. case x of Inl _ \<Rightarrow> 0 | Inr (eo, cg, ef, nf, es, st) \<Rightarrow> length es]", goal_cases)
  case 1
  show ?case by simp
next
  case (2 eo no cg updateEdgeFn updateNodeFn funcOp visited s)
  have "set (callSites cg) \<union> fst ` set (edges_of cg funcOp) = set (callSites cg)"
    by (auto dest: edges_of_callSites)
  then show ?case by simp
next
  case (3 eo cg updateEdgeFn updateNodeFn callOp callee rest visited s)
  have "set (callSites cg) - insert callOp visited
          \<subset> (set (callSites cg) \<union> fst ` set ((callOp, callee) # rest)) - visited"
    using 3 by auto
  then have "card (set (callSites cg) - insert callOp visited)
          < card ((set (callSites cg) \<union> fst ` set ((callOp, callee) # rest)) - visited)"
    by (intro psubset_card_mono) simp_all
  then show ?case by simp
next
  case (4 eo cg updateEdgeFn updateNodeFn callOp callee rest visited s b xc y)
  from doWalk_visited_dom(1) [OF 4(4)] 4(2,3) have "xc = insert callOp visited" by auto
  with 4(1) have xc: "xc - {callOp} = visited" by auto
  have "card ((set (callSites cg) \<union> fst ` set rest) - visited)
          \<le> card ((set (callSites cg) \<union> fst ` set ((callOp, callee) # rest)) - visited)"
    by (intro card_mono) auto
  then show ?case using xc by auto
qed

fun walk_roots :: "WalkOrder \<Rightarrow> WalkOrder \<Rightarrow> CallGraph \<Rightarrow> (CallOp \<Rightarrow> FuncOp \<Rightarrow> 's \<Rightarrow> 's)
               \<Rightarrow> (FuncOp \<Rightarrow> 's \<Rightarrow> 's) \<Rightarrow> FuncOp list \<Rightarrow> CallOp set \<times> 's
               \<Rightarrow> fatal_error + CallOp set \<times> 's" where
  "walk_roots eo no cg updateEdgeFn updateNodeFn [] st = Inr st"
| "walk_roots eo no cg updateEdgeFn updateNodeFn (rootOp # rest) st =
     (case doWalk eo no cg updateEdgeFn updateNodeFn rootOp st of
        Inl e \<Rightarrow> Inl e
      | Inr st' \<Rightarrow> walk_roots eo no cg updateEdgeFn updateNodeFn rest st')"

definition walk :: "WalkOrder \<Rightarrow> WalkOrder \<Rightarrow> CallGraph \<Rightarrow> (CallOp \<Rightarrow> FuncOp \<Rightarrow> 's \<Rightarrow> 's)
               \<Rightarrow> (FuncOp \<Rightarrow> 's \<Rightarrow> 's) \<Rightarrow> 's \<Rightarrow> fatal_error + 's" where
  "walk eo no cg updateEdgeFn updateNodeFn s =
     (case walk_roots eo no cg updateEdgeFn updateNodeFn (roots cg) ({}, s) of
        Inl e \<Rightarrow> Inl e
      | Inr (visited, s') \<Rightarrow> Inr s')"

subsection \<open>\<^verbatim>\<open>topologicalSort\<close> and \<^verbatim>\<open>doTopologicalSort\<close>\<close>

text \<open>
  \<^verbatim>\<open>doTopologicalSort\<close> keeps no visited set, and on a cyclic graph its recursion never
  returns. The model bounds the depth of the recursion by its first argument and is
  \<open>None\<close> when the bound is exceeded; the C++ function returns exactly when some bound
  gives \<open>Some\<close>. \<^verbatim>\<open>SetVector::insert\<close> appends an element that is not yet present.
\<close>

fun doTopologicalSort :: "nat \<Rightarrow> CallGraph \<Rightarrow> FuncOp \<Rightarrow> FuncOp list \<Rightarrow> FuncOp list option"
  and doTopologicalSort_edges ::
    "nat \<Rightarrow> CallGraph \<Rightarrow> (CallOp \<times> FuncOp) list \<Rightarrow> FuncOp list \<Rightarrow> FuncOp list option"
where
  "doTopologicalSort 0 cg funcOp funcs = None"
| "doTopologicalSort (Suc depth) cg funcOp funcs =
     doTopologicalSort_edges depth cg (edges_of cg funcOp) (funcs @ [funcOp])"
| "doTopologicalSort_edges depth cg [] funcs = Some funcs"
| "doTopologicalSort_edges depth cg ((callOp, callee) # rest) funcs =
     (case doTopologicalSort depth cg callee funcs of
        None \<Rightarrow> None
      | Some funcs' \<Rightarrow> doTopologicalSort_edges depth cg rest funcs')"

fun topologicalSort_roots :: "nat \<Rightarrow> CallGraph \<Rightarrow> FuncOp list \<Rightarrow> FuncOp list \<Rightarrow> FuncOp list option" where
  "topologicalSort_roots depth cg [] funcs = Some funcs"
| "topologicalSort_roots depth cg (rootOp # rest) funcs =
     (case doTopologicalSort depth cg rootOp funcs of
        None \<Rightarrow> None
      | Some funcs' \<Rightarrow> topologicalSort_roots depth cg rest funcs')"

definition setVector_insert :: "'a \<Rightarrow> 'a list \<Rightarrow> 'a list" where
  "setVector_insert x vec = (if x \<in> set vec then vec else vec @ [x])"

definition topologicalSort :: "nat \<Rightarrow> CallGraph \<Rightarrow> FuncOp list option" where
  "topologicalSort depth cg =
     (case topologicalSort_roots depth cg (roots cg) [] of
        None \<Rightarrow> None
      | Some funcs \<Rightarrow> Some (fold setVector_insert (rev funcs) []))"

section \<open>Notions used in the properties\<close>

subsection \<open>Sequences of hook calls\<close>

text \<open>
  A hook call with its arguments; hooks that record the calls made, alone
  (\<open>recordEdge\<close>, \<open>recordNode\<close>) or next to the work of arbitrary hooks (\<open>tracedEdgeFn\<close>,
  \<open>tracedNodeFn\<close>).
\<close>

datatype hook_call = NodeCall FuncOp | EdgeCall CallOp FuncOp

fun applyCall :: "(CallOp \<Rightarrow> FuncOp \<Rightarrow> 's \<Rightarrow> 's) \<Rightarrow> (FuncOp \<Rightarrow> 's \<Rightarrow> 's) \<Rightarrow> hook_call \<Rightarrow> 's \<Rightarrow> 's" where
  "applyCall updateEdgeFn updateNodeFn (NodeCall f) = updateNodeFn f"
| "applyCall updateEdgeFn updateNodeFn (EdgeCall c g) = updateEdgeFn c g"

definition recordEdge :: "CallOp \<Rightarrow> FuncOp \<Rightarrow> hook_call list \<Rightarrow> hook_call list" where
  "recordEdge callOp callee t = t @ [EdgeCall callOp callee]"

definition recordNode :: "FuncOp \<Rightarrow> hook_call list \<Rightarrow> hook_call list" where
  "recordNode funcOp t = t @ [NodeCall funcOp]"

definition tracedEdgeFn ::
  "(CallOp \<Rightarrow> FuncOp \<Rightarrow> 's \<Rightarrow> 's) \<Rightarrow> CallOp \<Rightarrow> FuncOp \<Rightarrow> hook_call list \<times> 's \<Rightarrow> hook_call list \<times> 's" where
  "tracedEdgeFn updateEdgeFn callOp callee =
     (\<lambda>(t, s). (t @ [EdgeCall callOp callee], updateEdgeFn callOp callee s))"

definition tracedNodeFn ::
  "(FuncOp \<Rightarrow> 's \<Rightarrow> 's) \<Rightarrow> FuncOp \<Rightarrow> hook_call list \<times> 's \<Rightarrow> hook_call list \<times> 's" where
  "tracedNodeFn updateNodeFn funcOp =
     (\<lambda>(t, s). (t @ [NodeCall funcOp], updateNodeFn funcOp s))"

text \<open>
  \<open>walkCalls\<close> gives the hook calls of \<open>doWalk\<close> as a function of the graph and the set of
  call sites on the stack, with no hook and no state. Lemma \<open>doWalk_walkCalls\<close> below
  proves that \<open>doWalk\<close>, with any hooks, makes exactly these calls.
\<close>

definition edgeCalls :: "WalkOrder \<Rightarrow> CallOp \<Rightarrow> FuncOp \<Rightarrow> hook_call list" where
  "edgeCalls eo c g =
     (if eo = PreOrder then [EdgeCall c g] else []) @ [EdgeCall c g]
       @ (if eo = PostOrder then [EdgeCall c g] else [])"

function
  walkCalls :: "WalkOrder \<Rightarrow> WalkOrder \<Rightarrow> CallGraph \<Rightarrow> FuncOp \<Rightarrow> CallOp set
                  \<Rightarrow> fatal_error + hook_call list"
  and walkCalls_edges :: "WalkOrder \<Rightarrow> CallGraph \<Rightarrow> (CallOp \<times> FuncOp) list \<Rightarrow> CallOp set
                  \<Rightarrow> fatal_error + hook_call list"
where
  "walkCalls eo no cg f V =
     (case walkCalls_edges eo cg (edges_of cg f) V of
        Inl e \<Rightarrow> Inl e
      | Inr t \<Rightarrow> Inr ((if no = PreOrder then [NodeCall f] else []) @ t
                     @ (if no = PostOrder then [NodeCall f] else [])))"
| "walkCalls_edges eo cg [] V = Inr []"
| "walkCalls_edges eo cg ((c, g) # rest) V =
     (if c \<in> V then Inl CycleDetected
      else
        case walkCalls PreOrder PreOrder cg g (insert c V) of
          Inl e \<Rightarrow> Inl e
        | Inr t \<Rightarrow>
            (case walkCalls_edges eo cg rest V of
               Inl e \<Rightarrow> Inl e
             | Inr t' \<Rightarrow> Inr (edgeCalls eo c g @ t @ t')))"
  by pat_completeness auto

termination walkCalls
proof (relation "measures
    [\<lambda>x. case x of
        Inl (eo, no, cg, f, V) \<Rightarrow> card (set (callSites cg) - V)
      | Inr (eo, cg, es, V) \<Rightarrow> card ((set (callSites cg) \<union> fst ` set es) - V),
     \<lambda>x. case x of Inl _ \<Rightarrow> 1 | Inr _ \<Rightarrow> 0,
     \<lambda>x. case x of Inl _ \<Rightarrow> 0 | Inr (eo, cg, es, V) \<Rightarrow> length es]", goal_cases)
  case 1
  show ?case by simp
next
  case (2 eo no cg f V)
  have "set (callSites cg) \<union> fst ` set (edges_of cg f) = set (callSites cg)"
    by (auto dest: edges_of_callSites)
  then show ?case by simp
next
  case (3 eo cg c g rest V)
  have "set (callSites cg) - insert c V
          \<subset> (set (callSites cg) \<union> fst ` set ((c, g) # rest)) - V"
    using 3 by auto
  then have "card (set (callSites cg) - insert c V)
          < card ((set (callSites cg) \<union> fst ` set ((c, g) # rest)) - V)"
    by (intro psubset_card_mono) simp_all
  then show ?case by simp
next
  case (4 eo cg c g rest V)
  have "card ((set (callSites cg) \<union> fst ` set rest) - V)
          \<le> card ((set (callSites cg) \<union> fst ` set ((c, g) # rest)) - V)"
    by (intro card_mono) auto
  then show ?case by auto
qed

declare doWalk.simps [simp del] walkCalls.simps [simp del]

fun walkCalls_roots :: "WalkOrder \<Rightarrow> WalkOrder \<Rightarrow> CallGraph \<Rightarrow> FuncOp list
                          \<Rightarrow> fatal_error + hook_call list" where
  "walkCalls_roots eo no cg [] = Inr []"
| "walkCalls_roots eo no cg (rootOp # rest) =
     (case walkCalls eo no cg rootOp {} of
        Inl e \<Rightarrow> Inl e
      | Inr t \<Rightarrow>
          (case walkCalls_roots eo no cg rest of
             Inl e \<Rightarrow> Inl e
           | Inr t' \<Rightarrow> Inr (t @ t')))"

definition runCalls ::
  "(CallOp \<Rightarrow> FuncOp \<Rightarrow> 's \<Rightarrow> 's) \<Rightarrow> (FuncOp \<Rightarrow> 's \<Rightarrow> 's) \<Rightarrow> CallOp set \<Rightarrow> 's
     \<Rightarrow> fatal_error + hook_call list \<Rightarrow> fatal_error + CallOp set \<times> 's" where
  "runCalls ef nf V s r = (case r of Inl e \<Rightarrow> Inl e | Inr t \<Rightarrow> Inr (V, fold (applyCall ef nf) t s))"

subsection \<open>The call relation\<close>

text \<open>
  \<open>edgeRel\<close> relates a function to its callees. A cycle is reachable from \<open>f\<close> when
  \<open>f\<close> reaches a function that reaches itself in one step or more. \<open>reachCalls\<close> are the
  call sites of the functions reachable from \<open>f\<close>.
\<close>

definition edgeRel :: "CallGraph \<Rightarrow> (FuncOp \<times> FuncOp) set" where
  "edgeRel cg = (\<Union>f \<in> fst ` set (callGraph cg). (\<lambda>(c, g). (f, g)) ` set (edges_of cg f))"

definition cycleReachable :: "CallGraph \<Rightarrow> FuncOp \<Rightarrow> bool" where
  "cycleReachable cg f = (\<exists>h. (f, h) \<in> (edgeRel cg)\<^sup>* \<and> (h, h) \<in> (edgeRel cg)\<^sup>+)"

definition reachCalls :: "CallGraph \<Rightarrow> FuncOp \<Rightarrow> CallOp set" where
  "reachCalls cg f = {c. \<exists>h g. (f, h) \<in> (edgeRel cg)\<^sup>* \<and> (c, g) \<in> set (edges_of cg h)}"

subsection \<open>Order of functions\<close>

text \<open>
  \<open>calleesFollow\<close>: every occurrence of a function in a list is followed, later in the
  list, by each of its callees.
\<close>

fun calleesFollow :: "CallGraph \<Rightarrow> FuncOp list \<Rightarrow> bool" where
  "calleesFollow cg [] = True"
| "calleesFollow cg (f # funcs) =
     ((\<forall>(c, g) \<in> set (edges_of cg f). g \<in> set funcs) \<and> calleesFollow cg funcs)"

subsection \<open>Diagnostics owed to one operand\<close>

definition mismatches :: "int list \<Rightarrow> Attribute \<Rightarrow> RankedTensorType \<Rightarrow> string list" where
  "mismatches shape encoding t =
     (if getShape t \<noteq> shape then [''shape mismatch''] else [])
       @ (if getEncoding t \<noteq> encoding then [''encoding mismatch''] else [])"

subsection \<open>Example modules\<close>

text \<open>
  The module with the calls \<open>main \<rightarrow> a\<close>, \<open>main \<rightarrow> b\<close>, \<open>a \<rightarrow> c\<close>, \<open>b \<rightarrow> c\<close> and \<open>c \<rightarrow> d\<close>
  (\<open>main\<close>, \<open>a\<close>, \<open>b\<close>, \<open>c\<close>, \<open>d\<close> are the functions 1 to 5, the call sites are 10 to 14),
  the call graph that \<open>build\<close> makes of it, and the hook calls of a walk over it, one line
  or two for each root; the module with the calls \<open>a \<rightarrow> b\<close> and \<open>b \<rightarrow> a\<close>; the module with
  the single call \<open>main \<rightarrow> a\<close> (functions 1 and 2, call site 10). The operations of a
  function body are visited before the function itself, and every top-level function of
  a module becomes a root. Two counting hooks, and a reduction whose operands disagree.
\<close>

definition mkCallOp :: "nat \<Rightarrow> FuncOp \<Rightarrow> FuncOp \<Rightarrow> Operation" where
  "mkCallOp h parent callee = \<lparr>opHandle = h, parentFuncOp = parent, opKind = CallOpKind (Some callee)\<rparr>"

definition mkFuncOp :: "FuncOp \<Rightarrow> Operation" where
  "mkFuncOp f = \<lparr>opHandle = f, parentFuncOp = 0, opKind = FuncOpKind\<rparr>"

definition diamondModule :: "Operation list" where
  "diamondModule =
     [mkCallOp 10 1 2, mkCallOp 11 1 3, mkFuncOp 1, mkCallOp 12 2 4, mkFuncOp 2,
      mkCallOp 13 3 4, mkFuncOp 3, mkCallOp 14 4 5, mkFuncOp 4, mkFuncOp 5]"

definition cyclicModule :: "Operation list" where
  "cyclicModule = [mkCallOp 10 1 2, mkFuncOp 1, mkCallOp 11 2 1, mkFuncOp 2]"

definition singleCallModule :: "Operation list" where
  "singleCallModule = [mkCallOp 10 1 2, mkFuncOp 1, mkFuncOp 2]"

definition diamond :: CallGraph where
  "diamond = \<lparr>callGraph = [(1, [(10, 2), (11, 3)]), (2, [(12, 4)]), (3, [(13, 4)]), (4, [(14, 5)])],
              roots = [1, 2, 3, 4, 5]\<rparr>"

definition diamondCalls :: "hook_call list" where
  "diamondCalls =
     [NodeCall 1,
      EdgeCall 10 2, EdgeCall 10 2, NodeCall 2, EdgeCall 12 4, EdgeCall 12 4, NodeCall 4,
      EdgeCall 14 5, EdgeCall 14 5, NodeCall 5,
      EdgeCall 11 3, EdgeCall 11 3, NodeCall 3, EdgeCall 13 4, EdgeCall 13 4, NodeCall 4,
      EdgeCall 14 5, EdgeCall 14 5, NodeCall 5,
      NodeCall 2, EdgeCall 12 4, EdgeCall 12 4, NodeCall 4, EdgeCall 14 5, EdgeCall 14 5, NodeCall 5,
      NodeCall 3, EdgeCall 13 4, EdgeCall 13 4, NodeCall 4, EdgeCall 14 5, EdgeCall 14 5, NodeCall 5,
      NodeCall 4, EdgeCall 14 5, EdgeCall 14 5, NodeCall 5,
      NodeCall 5]"

definition cyclicPair :: CallGraph where
  "cyclicPair = \<lparr>callGraph = [(1, [(10, 2)]), (2, [(11, 1)])], roots = [1, 2]\<rparr>"

definition singleCall :: CallGraph where
  "singleCall = \<lparr>callGraph = [(1, [(10, 2)])], roots = [1, 2]\<rparr>"

definition countEdgeFn :: "CallOp \<Rightarrow> FuncOp \<Rightarrow> nat \<Rightarrow> nat" where
  "countEdgeFn callOp callee n = n + 1"

definition countNodeFn :: "FuncOp \<Rightarrow> nat \<Rightarrow> nat" where
  "countNodeFn funcOp n = n + 100"

definition tensor :: "int list \<Rightarrow> Attribute \<Rightarrow> RankedTensorType" where
  "tensor shape enc = \<lparr>getShape = shape, getEncoding = enc, getElementType = 0\<rparr>"

definition mismatchedReduce :: ReduceOp where
  "mismatchedReduce = \<lparr>getOperation = 7, getAxis = 1,
     getInputTypes = [tensor [128, 64] 1, tensor [128, 32] 1, tensor [128, 64] 2, tensor [64] 3]\<rparr>"

section \<open>Properties of the numeric helpers\<close>

subsection \<open>\<^verbatim>\<open>product\<close>\<close>

lemma ucast_mult_low:
  "(ucast (a * b :: 'a::len word) :: c_int) = ucast a * ucast b" if "32 \<le> LENGTH('a)"
proof -
  have down: "is_down (ucast :: 'a word \<Rightarrow> c_int)" using that by (simp add: is_down)
  have "(ucast (a * b) :: c_int) = ucast (word_of_int (uint a * uint b) :: 'a word)"
    by (simp only: word_mult_def)
  also have "\<dots> = word_of_int (uint a * uint b)"
    using down by (rule ucast_down_wi)
  also have "\<dots> = ucast a * ucast b"
    by (simp only: wi_hom_mult [symmetric] ucast_eq)
  finally show ?thesis .
qed

lemma ucast_scast_low:
  "(ucast (scast (w :: c_int) :: 'a::len word) :: c_int) = w" if "32 \<le> LENGTH('a)"
proof -
  have "is_up (scast :: c_int \<Rightarrow> 'a word)" using that by (simp add: is_up)
  then show ?thesis
    by (metis scast_up_scast_id down_cast_same is_up_down)
qed

lemma multiplies_step_low:
  "multiplies_step (x :: 'a::len word) acc = acc * ucast x" if "32 \<le> LENGTH('a)"
  using that by (simp add: multiplies_step_def ucast_mult_low ucast_scast_low)

lemma fold_multiplies_step:
  "fold multiplies_step (xs :: 'a::len word list) acc = acc * ucast (prod_list xs)"
  if "32 \<le> LENGTH('a)"
  using that
proof (induction xs arbitrary: acc)
  case Nil
  then show ?case by simp
next
  case (Cons x xs)
  then show ?case
    by (simp add: multiplies_step_low ucast_mult_low mult.assoc)
qed

lemma product_low_bits:
  "product (xs :: 'a::len word list) = scast (ucast (prod_list xs) :: c_int)"
  if "32 \<le> LENGTH('a)"
  using that by (simp add: product_def fold_multiplies_step)

lemma product_c_int: "product (xs :: c_int list) = prod_list xs"
  by (simp add: product_low_bits)

text \<open>
  C6 (the product is computed exactly in the element integer type): the code does not do
  this for a 64-bit element type. Both factors and their product \<open>2\<^sup>3\<^sup>2\<close> fit in
  \<^verbatim>\<open>int64_t\<close>, yet \<^verbatim>\<open>product<int64_t>({65536, 65536})\<close> is \<open>0\<close>: the \<^verbatim>\<open>int\<close>
  accumulator keeps only the low 32 bits (lemma \<open>product_low_bits\<close>). For a 32-bit
  element type the result is the ordered product (lemma \<open>product_c_int\<close>), and the empty
  sequence gives 1 (lemma \<open>product_empty\<close>).
\<close>

theorem product_truncates_to_int:
  "product [65536, 65536 :: 64 word] = 0 \<and> prod_list [65536, 65536 :: 64 word] = 4294967296
   \<and> (4294967296 :: 64 word) \<noteq> 0"
  by (simp add: product_def multiplies_step_def)

lemma product_empty: "product ([] :: 'a::len word list) = 1"
  by (simp add: product_def)

subsection \<open>\<^verbatim>\<open>highestPowOf2Divisor\<close>\<close>

lemma odd_and_neg: "odd (n::int) \<Longrightarrow> n AND - n = 1"
  apply (rule bit_eqI)
  apply (auto simp add: bit_simps minus_eq_not_minus_1 bit_0)
  using odd_bit_iff_bit_pred by auto

lemma even_and_neg: "(2 * a) AND - (2 * a) = 2 * (a AND - (a::int))"
  using push_bit_and [of 1 a "- a"] by (simp add: push_bit_eq_mult mult.commute)

lemma and_neg_int:
  "(n::int) \<noteq> 0 \<Longrightarrow> \<exists>k. n AND - n = 2 ^ k \<and> 2 ^ k dvd n \<and> \<not> 2 ^ Suc k dvd n"
proof (induction "nat \<bar>n\<bar>" arbitrary: n rule: less_induct)
  case less
  show ?case
  proof (cases "even n")
    case False
    then have "n AND - n = 1" by (rule odd_and_neg)
    with False show ?thesis by (intro exI [of _ 0]) simp
  next
    case True
    then obtain a where n: "n = 2 * a" by (auto elim: evenE)
    with less.prems have a: "a \<noteq> 0" by simp
    have "nat \<bar>a\<bar> < nat \<bar>n\<bar>" using n a by simp
    from less.hyps [OF this a] obtain k where
      k: "a AND - a = 2 ^ k" "2 ^ k dvd a" "\<not> 2 ^ Suc k dvd a" by blast
    have "n AND - n = 2 * (a AND - a)"
      unfolding n by (rule even_and_neg)
    moreover have "2 ^ Suc k dvd n" using k(2) n by simp
    moreover have "\<not> 2 ^ Suc (Suc k) dvd n"
    proof
      assume "2 ^ Suc (Suc k) dvd n"
      then have "2 * 2 ^ Suc k dvd 2 * a" using n by simp
      then have "2 ^ Suc k dvd a" by (simp only: dvd_mult_cancel_left) simp
      with k(3) show False ..
    qed
    ultimately show ?thesis
      using k(1) by (intro exI [of _ "Suc k"]) simp
  qed
qed

lemma highestPowOf2Divisor_nonzero:
  fixes n :: "'a::len word"
  assumes "n \<noteq> 0"
  shows "\<exists>k<LENGTH('a). highestPowOf2Divisor n = 2 ^ k \<and> 2 ^ k dvd uint n \<and> \<not> 2 * 2 ^ k dvd uint n"
proof -
  from assms have nz: "uint n \<noteq> 0" by (simp add: uint_0_iff)
  from and_neg_int [OF this] obtain k where
    k: "uint n AND - uint n = 2 ^ k" "2 ^ k dvd uint n" "\<not> 2 ^ Suc k dvd uint n" by blast
  have "(2::int) ^ k \<le> uint n"
    using k(2) nz by (intro zdvd_imp_le) (auto simp: less_le)
  also have "uint n < 2 ^ LENGTH('a)" by (rule uint_lt2p)
  finally have lt: "k < LENGTH('a)" by simp
  have "highestPowOf2Divisor n = n AND - n"
    using assms by (simp add: highestPowOf2Divisor_def minus_eq_not_minus_1)
  also have "\<dots> = word_of_int (uint n AND - uint n)"
    by (simp add: of_int_and_eq)
  also have "\<dots> = 2 ^ k" by (simp add: k(1))
  finally show ?thesis using lt k by auto
qed

lemma unat_2p: "k < LENGTH('a) \<Longrightarrow> unat (2 ^ k :: 'a::len word) = 2 ^ k"
  by (simp add: of_nat_inverse)

lemma sint_cases: "sint (n :: 'a::len word) = uint n \<or> sint n = uint n - 2 ^ LENGTH('a)"
proof -
  have "sint n = signed_take_bit (LENGTH('a) - Suc 0) (uint n)" by (rule sint_uint)
  also have "\<dots> = take_bit (Suc (LENGTH('a) - Suc 0)) (uint n)
      - 2 ^ Suc (LENGTH('a) - Suc 0) * of_bool (bit (uint n) (LENGTH('a) - Suc 0))"
    by (rule signed_take_bit_eq_take_bit_minus)
  also have "Suc (LENGTH('a) - Suc 0) = LENGTH('a)" by simp
  finally show ?thesis by (auto simp: take_bit_int_eq_self)
qed

lemma dvd_unat_uint: "(d dvd unat n) = (int d dvd uint n)"
proof -
  have "(int d dvd uint n) = (int d dvd int (unat n))" by simp
  also have "\<dots> = (d dvd unat n)" by (rule int_dvd_int_iff)
  finally show ?thesis by simp
qed

lemma sint_2p: "k < LENGTH('a) - 1 \<Longrightarrow> sint (2 ^ k :: 'a::len word) = 2 ^ k"
proof -
  assume k: "k < LENGTH('a) - 1"
  then have kl: "k < LENGTH('a)" by simp
  have "sint (2 ^ k :: 'a word) = signed_take_bit (LENGTH('a) - Suc 0) (uint (2 ^ k :: 'a word))"
    by (rule sint_uint)
  also have "uint (2 ^ k :: 'a word) = 2 ^ k"
  proof -
    have "uint (2 ^ k :: 'a word) = int (unat (2 ^ k :: 'a word))" by simp
    also have "\<dots> = 2 ^ k" using kl by (simp only: unat_2p) simp
    finally show ?thesis .
  qed
  also have "signed_take_bit (LENGTH('a) - Suc 0) ((2::int) ^ k) = 2 ^ k"
  proof (rule signed_take_bit_int_eq_self)
    show "- (2 ^ (LENGTH('a) - Suc 0)) \<le> (2::int) ^ k"
      by (rule order_trans [of _ 0]) simp_all
    show "(2::int) ^ k < 2 ^ (LENGTH('a) - Suc 0)" using k by simp
  qed
  finally show ?thesis .
qed

lemma sint_least:
  fixes n :: "'a::len word"
  assumes "uint n = 2 ^ (LENGTH('a) - 1)"
  shows "sint n = - (2 ^ (LENGTH('a) - 1))"
proof -
  have p: "(2::int) ^ LENGTH('a) = 2 * 2 ^ (LENGTH('a) - 1)"
    by (cases "LENGTH('a)") simp_all
  have "sint n < 2 ^ (LENGTH('a) - 1)" by (rule sint_lt)
  with assms have "sint n \<noteq> uint n" by simp
  with sint_cases [of n] have "sint n = uint n - 2 ^ LENGTH('a)" by blast
  with assms p show ?thesis by simp
qed

lemma dvd_top_bit:
  fixes u :: int
  assumes "2 ^ m dvd u" "0 < u" "u < 2 * 2 ^ m"
  shows "u = 2 ^ m"
proof -
  from assms(1) obtain q where q: "u = 2 ^ m * q" by (auto elim: dvdE)
  with assms(2) have "0 < q" by (simp add: zero_less_mult_iff)
  moreover from q assms(3) have "2 ^ m * q < 2 ^ m * 2" by (simp add: mult.commute)
  have "\<not> 2 \<le> q"
  proof
    assume "2 \<le> q"
    then have "(2::int) ^ m * 2 \<le> 2 ^ m * q" by (intro mult_left_mono) simp_all
    with \<open>2 ^ m * q < 2 ^ m * 2\<close> show False by simp
  qed
  ultimately have "q = 1" by simp
  with q show ?thesis by simp
qed

text \<open>
  C7, as amended: for every non-zero \<open>n\<close>, read as an unsigned value (\<open>unat\<close>),
  \<^verbatim>\<open>highestPowOf2Divisor(n)\<close> is a power of two \<open>2\<^sup>k\<close> that divides \<open>n\<close> while \<open>2 \<sqdot> 2\<^sup>k\<close> does
  not; the same holds when \<open>n\<close> and the result are read as two's complement values
  (\<open>sint\<close>), unless \<open>n\<close> is the least value of the type; for \<open>n = 0\<close> the result is
  \<open>2\<^sup>B\<^sup>-\<^sup>2\<close>, \<open>B\<close> the width of the type, in both readings.
\<close>

theorem highestPowOf2Divisor_spec:
  fixes n :: "'a::len word"
  shows "(n \<noteq> 0 \<longrightarrow>
           (\<exists>k<LENGTH('a). highestPowOf2Divisor n = 2 ^ k
               \<and> unat (highestPowOf2Divisor n) = 2 ^ k
               \<and> 2 ^ k dvd unat n \<and> \<not> 2 * 2 ^ k dvd unat n))
         \<and> (n \<noteq> 0 \<and> sint n \<noteq> - (2 ^ (LENGTH('a) - 1)) \<longrightarrow>
           (\<exists>k<LENGTH('a) - 1. sint (highestPowOf2Divisor n) = 2 ^ k
               \<and> 2 ^ k dvd sint n \<and> \<not> 2 * 2 ^ k dvd sint n))
         \<and> highestPowOf2Divisor (0 :: 'a word) = 2 ^ (LENGTH('a) - 2)
         \<and> unat (highestPowOf2Divisor (0 :: 'a word)) = 2 ^ (LENGTH('a) - 2)
         \<and> (2 \<le> LENGTH('a) \<longrightarrow> sint (highestPowOf2Divisor (0 :: 'a word)) = 2 ^ (LENGTH('a) - 2))"
proof (intro conjI impI)
  show z: "highestPowOf2Divisor (0 :: 'a word) = 2 ^ (LENGTH('a) - 2)"
    by (simp add: highestPowOf2Divisor_def)
  show "unat (highestPowOf2Divisor (0 :: 'a word)) = 2 ^ (LENGTH('a) - 2)"
    unfolding z by (rule unat_2p) simp
  show "sint (highestPowOf2Divisor (0 :: 'a word)) = 2 ^ (LENGTH('a) - 2)" if "2 \<le> LENGTH('a)"
    unfolding z using that by (intro sint_2p) simp
next
  assume "n \<noteq> 0"
  from highestPowOf2Divisor_nonzero [OF this] obtain k where
    k: "k < LENGTH('a)" "highestPowOf2Divisor n = 2 ^ k" "2 ^ k dvd uint n"
       "\<not> 2 ^ Suc k dvd uint n" by auto
  have un: "unat (2 ^ k :: 'a word) = 2 ^ k" using k(1) by (rule unat_2p)
  have u1: "(2::nat) ^ k dvd unat n"
    using k(3) by (simp add: dvd_unat_uint)
  have u2: "\<not> (2::nat) ^ Suc k dvd unat n"
    using k(4) by (simp add: dvd_unat_uint)
  show "\<exists>k<LENGTH('a). highestPowOf2Divisor n = 2 ^ k
               \<and> unat (highestPowOf2Divisor n) = 2 ^ k
               \<and> 2 ^ k dvd unat n \<and> \<not> 2 * 2 ^ k dvd unat n"
    using k(1,2) un u1 u2 by (intro exI [of _ k]) simp
next
  assume a: "n \<noteq> 0 \<and> sint n \<noteq> - (2 ^ (LENGTH('a) - 1))"
  then have nz: "n \<noteq> 0" and nl: "sint n \<noteq> - (2 ^ (LENGTH('a) - 1))" by simp_all
  from highestPowOf2Divisor_nonzero [OF nz] obtain k where
    k: "k < LENGTH('a)" "highestPowOf2Divisor n = 2 ^ k" "2 ^ k dvd uint n"
       "\<not> 2 ^ Suc k dvd uint n" by auto
  have p: "(2::int) ^ LENGTH('a) = 2 * 2 ^ (LENGTH('a) - 1)"
    by (cases "LENGTH('a)") simp_all
  have "k \<noteq> LENGTH('a) - 1"
  proof
    assume e: "k = LENGTH('a) - 1"
    have "uint n \<noteq> 0" using nz by (simp add: uint_0_iff)
    then have "0 < uint n" using uint_ge_0 [of n] by linarith
    moreover have "uint n < 2 * 2 ^ (LENGTH('a) - 1)" using uint_lt2p [of n] p by simp
    moreover have "2 ^ (LENGTH('a) - 1) dvd uint n" using k(3) e by simp
    ultimately have "uint n = 2 ^ (LENGTH('a) - 1)" by (intro dvd_top_bit)
    then have "sint n = - (2 ^ (LENGTH('a) - 1))" by (rule sint_least)
    with nl show False ..
  qed
  with k(1) have k1: "k < LENGTH('a) - 1" by simp
  have sn: "sint (2 ^ k :: 'a word) = 2 ^ k" using k1 by (rule sint_2p)
  have d2: "(2::int) ^ Suc k dvd 2 ^ LENGTH('a)"
    using k(1) by (intro le_imp_power_dvd) simp
  have d1: "(2::int) ^ k dvd 2 ^ LENGTH('a)"
    using k(1) by (intro le_imp_power_dvd) simp
  have s1: "2 ^ k dvd sint n"
    using sint_cases [of n] k(3) d1 by (auto simp: dvd_diff_left_iff)
  have s2: "\<not> 2 ^ Suc k dvd sint n"
    using sint_cases [of n] k(4) d2 by (auto simp only: dvd_diff_left_iff)
  show "\<exists>k<LENGTH('a) - 1. sint (highestPowOf2Divisor n) = 2 ^ k
               \<and> 2 ^ k dvd sint n \<and> \<not> 2 * 2 ^ k dvd sint n"
    using k1 k(2) sn s1 s2 by (intro exI [of _ k]) simp
qed

theorem highestPowOf2Divisor_spec_witness:
  "(- 12 :: 32 word) \<noteq> 0 \<and> sint (- 12 :: 32 word) = - 12
    \<and> sint (- 12 :: 32 word) \<noteq> - (2 ^ (LENGTH(32) - 1)) \<and> 2 \<le> LENGTH(32)
    \<and> highestPowOf2Divisor (- 12 :: 32 word) = 4
    \<and> (\<exists>k<31. sint (highestPowOf2Divisor (- 12 :: 32 word)) = 2 ^ k
           \<and> 2 ^ k dvd sint (- 12 :: 32 word) \<and> \<not> 2 * 2 ^ k dvd sint (- 12 :: 32 word))
    \<and> sint (highestPowOf2Divisor (0 :: 32 word)) = 2 ^ 30"
  using highestPowOf2Divisor_spec [of "- 12 :: 32 word"]
  by (simp add: highestPowOf2Divisor_def)

text \<open>
  C7 as stated (for every non-zero \<open>n\<close>) fails for a signed type at its least value: for
  the 32-bit \<^verbatim>\<open>int\<close> and \<open>n = -2\<^sup>3\<^sup>1\<close> the result is \<open>n\<close> itself, a negative number, which
  is not a power of two. The greatest power of two that divides \<open>n\<close> is \<open>2\<^sup>3\<^sup>1\<close>, which is
  not a value of the type.
\<close>

theorem highestPowOf2Divisor_least_value_counterexample:
  "(2147483648 :: 32 word) \<noteq> 0
   \<and> sint (2147483648 :: 32 word) = - 2147483648
   \<and> sint (highestPowOf2Divisor (2147483648 :: 32 word)) = - 2147483648
   \<and> sint (highestPowOf2Divisor (2147483648 :: 32 word)) < 0"
  by (simp add: highestPowOf2Divisor_def)

subsection \<open>\<^verbatim>\<open>ceil\<close>\<close>

lemma int_ceil_div:
  fixes M N :: int
  assumes "0 \<le> M" "0 < N"
  shows "M \<le> (M + N - 1) div N * N" and "((M + N - 1) div N - 1) * N < M"
    and "(M + N - 1) div N = \<lceil>real_of_int M / real_of_int N\<rceil>"
proof -
  define a where "a = M + N - 1"
  define q where "q = a div N"
  have eq: "q * N + a mod N = a" by (simp add: q_def)
  have lo: "0 \<le> a mod N" and hi: "a mod N < N" using assms(2) by simp_all
  show 1: "M \<le> (M + N - 1) div N * N"
    using eq lo hi unfolding a_def [symmetric] q_def [symmetric] by (simp add: a_def)
  show 2: "((M + N - 1) div N - 1) * N < M"
    using eq lo hi unfolding a_def [symmetric] q_def [symmetric]
    by (simp add: a_def algebra_simps)
  have N: "0 < real_of_int N" using assms(2) by simp
  have "real_of_int M \<le> real_of_int (q * N)" using 1 unfolding a_def [symmetric] q_def [symmetric]
    by (simp only: of_int_le_iff)
  then have up: "real_of_int M / real_of_int N \<le> of_int q"
    using N by (simp add: pos_divide_le_eq)
  have "real_of_int ((q - 1) * N) < real_of_int M" using 2 unfolding a_def [symmetric] q_def [symmetric]
    by (simp only: of_int_less_iff)
  then have low: "of_int q - 1 < real_of_int M / real_of_int N"
    using N by (simp add: pos_less_divide_eq)
  show "(M + N - 1) div N = \<lceil>real_of_int M / real_of_int N\<rceil>"
    unfolding a_def [symmetric] q_def [symmetric]
    using low up by (rule ceiling_unique [symmetric])
qed

lemma sdiv_nonneg: "0 \<le> a \<Longrightarrow> 0 < N \<Longrightarrow> (a::int) sdiv N = a div N"
  by (simp add: signed_divide_int_def sgn_if)

lemma sint_of_int_small:
  "0 \<le> a \<Longrightarrow> a < 2 ^ (LENGTH('a) - 1) \<Longrightarrow> sint (word_of_int a :: 'a::len word) = a"
  by (simp add: sint_sbintrunc' signed_take_bit_int_eq_self)

lemma uint_of_int_small:
  "0 \<le> a \<Longrightarrow> a < 2 ^ LENGTH('a) \<Longrightarrow> uint (word_of_int a :: 'a::len word) = a"
  by (simp add: uint_word_of_int)

lemma ceil_signed:
  fixes m n :: "'a::len word"
  assumes "0 \<le> sint m" "0 < sint n" "sint m + sint n - 1 < 2 ^ (LENGTH('a) - 1)"
  shows "\<exists>q. ceil Signed m n = Some q \<and> sint m \<le> sint q * sint n
             \<and> (sint q - 1) * sint n < sint m
             \<and> sint q = \<lceil>real_of_int (sint m) / real_of_int (sint n)\<rceil>"
proof -
  define a where "a = sint m + sint n - 1"
  have a0: "0 \<le> a" using assms by (simp add: a_def)
  have a1: "a < 2 ^ (LENGTH('a) - 1)" using assms by (simp add: a_def)
  have nz: "n \<noteq> 0" using assms(2) by auto
  have "m + n - 1 = word_of_int a" by (simp add: a_def)
  then have sa: "sint (m + n - 1) = a" using a0 a1 by (simp add: sint_of_int_small)
  have q0: "0 \<le> a div sint n" using a0 assms(2) by (simp add: pos_imp_zdiv_nonneg_iff)
  have "a div sint n \<le> a div 1" using a0 assms(2) by (intro zdiv_mono2) simp_all
  then have q1: "a div sint n < 2 ^ (LENGTH('a) - 1)" using a1 by simp
  have c: "ceil Signed m n = Some (word_of_int (a div sint n))"
    using nz a0 assms(2) by (simp add: ceil_def c_div_def sa sdiv_nonneg)
  have sq: "sint (word_of_int (a div sint n) :: 'a word) = a div sint n"
    using q0 q1 by (rule sint_of_int_small)
  show ?thesis
    using int_ceil_div [OF assms(1,2)] c sq by (simp add: a_def)
qed

lemma ceil_unsigned:
  fixes m n :: "'a::len word"
  assumes "0 < uint n" "uint m + uint n - 1 < 2 ^ LENGTH('a)"
  shows "\<exists>q. ceil Unsigned m n = Some q \<and> uint m \<le> uint q * uint n
             \<and> (uint q - 1) * uint n < uint m
             \<and> uint q = \<lceil>real_of_int (uint m) / real_of_int (uint n)\<rceil>"
proof -
  define a where "a = uint m + uint n - 1"
  have "0 \<le> uint m" by simp
  then have a0: "0 \<le> a" using assms(1) unfolding a_def by linarith
  have a1: "a < 2 ^ LENGTH('a)" using assms by (simp add: a_def)
  have nz: "n \<noteq> 0" using assms(1) by auto
  have "m + n - 1 = word_of_int a" by (simp add: a_def)
  then have sa: "uint (m + n - 1) = a" using a0 a1 by (simp add: uint_of_int_small)
  have c: "ceil Unsigned m n = Some ((m + n - 1) div n)"
    using nz by (simp add: ceil_def c_div_def)
  have sq: "uint ((m + n - 1) div n) = a div uint n"
    by (simp add: uint_div sa)
  have m0: "0 \<le> uint m" by simp
  show ?thesis
    using int_ceil_div [OF m0 assms(1)] c sq by (simp add: a_def)
qed

text \<open>
  C9: for \<open>m \<ge> 0\<close> and \<open>n > 0\<close> with \<open>m + n - 1\<close> inside the range of the type,
  \<^verbatim>\<open>ceil(m, n)\<close> is defined and \<open>ceil(m, n) \<sqdot> n \<ge> m > (ceil(m, n) - 1) \<sqdot> n\<close>, that is,
  the result is \<open>\<lceil>m / n\<rceil>\<close>; stated for a signed and for an unsigned integer type.
\<close>

theorem ceil_spec:
  fixes m n :: "'a::len word"
  shows "(0 \<le> sint m \<and> 0 < sint n \<and> sint m + sint n - 1 < 2 ^ (LENGTH('a) - 1) \<longrightarrow>
           (\<exists>q. ceil Signed m n = Some q \<and> sint m \<le> sint q * sint n
                \<and> (sint q - 1) * sint n < sint m
                \<and> sint q = \<lceil>real_of_int (sint m) / real_of_int (sint n)\<rceil>))
       \<and> (0 < uint n \<and> uint m + uint n - 1 < 2 ^ LENGTH('a) \<longrightarrow>
           (\<exists>q. ceil Unsigned m n = Some q \<and> uint m \<le> uint q * uint n
                \<and> (uint q - 1) * uint n < uint m
                \<and> uint q = \<lceil>real_of_int (uint m) / real_of_int (uint n)\<rceil>))"
  using ceil_signed [where m = m and n = n] ceil_unsigned [where m = m and n = n] by blast

theorem ceil_spec_witness:
  "0 \<le> sint (7 :: 32 word) \<and> 0 < sint (2 :: 32 word)
   \<and> sint (7 :: 32 word) + sint (2 :: 32 word) - 1 < 2 ^ (LENGTH(32) - 1)
   \<and> 0 < uint (2 :: 32 word) \<and> uint (7 :: 32 word) + uint (2 :: 32 word) - 1 < 2 ^ LENGTH(32)
   \<and> ceil Signed (7 :: 32 word) 2 = Some 4 \<and> ceil Unsigned (7 :: 32 word) 2 = Some 4
   \<and> sint (7 :: 32 word) \<le> sint (4 :: 32 word) * sint (2 :: 32 word)
   \<and> (sint (4 :: 32 word) - 1) * sint (2 :: 32 word) < sint (7 :: 32 word)"
  using ceil_spec [of "7 :: 32 word" 2]
  by (simp add: ceil_def c_div_def signed_divide_int_def)

subsection \<open>\<^verbatim>\<open>reorder\<close>\<close>

lemma reorder_loop_enumerate:
  assumes "\<forall>v\<in>set order. v < length input" "n + length order \<le> length result"
  shows "\<exists>r. reorder_loop input (enumerate n order) result = Some r
           \<and> length r = length result
           \<and> (\<forall>j<length result.
                 r ! j = (if n \<le> j \<and> j < n + length order then input ! (order ! (j - n))
                          else result ! j))"
  using assms
proof (induction order arbitrary: n result)
  case Nil
  have "reorder_loop input (enumerate n []) result = Some result" by simp
  moreover have "result ! j = (if n \<le> j \<and> j < n + length ([]::nat list)
                               then input ! ([] ! (j - n)) else result ! j)" for j
  proof -
    have "\<not> (n \<le> j \<and> j < n + length ([]::nat list))" by simp
    then show ?thesis by (simp only: if_False)
  qed
  ultimately show ?case by blast
next
  case (Cons v order)
  let ?res = "result[n := input ! v]"
  have "\<forall>v\<in>set order. v < length input" using Cons.prems(1) by simp
  moreover have "Suc n + length order \<le> length ?res" using Cons.prems(2) by simp
  ultimately obtain r where
    r: "reorder_loop input (enumerate (Suc n) order) ?res = Some r"
       "length r = length ?res"
       "\<forall>j<length ?res. r ! j = (if Suc n \<le> j \<and> j < Suc n + length order
                                    then input ! (order ! (j - Suc n)) else ?res ! j)"
    using Cons.IH [of "Suc n" ?res] by blast
  have v: "v < length input" using Cons.prems(1) by simp
  have "reorder_loop input (enumerate n (v # order)) result = Some r"
    using v r(1) by simp
  moreover have "length r = length result" using r(2) by simp
  moreover have "r ! j = (if n \<le> j \<and> j < n + length (v # order)
                          then input ! ((v # order) ! (j - n)) else result ! j)"
    if "j < length result" for j
  proof (cases "j = n")
    case True
    then show ?thesis using r(3) that by simp
  next
    have rj: "r ! j = (if Suc n \<le> j \<and> j < Suc n + length order
                        then input ! (order ! (j - Suc n)) else ?res ! j)"
      using r(3) that by simp
    case False
    show ?thesis
    proof (cases "n \<le> j \<and> j < n + length (v # order)")
      case True
      with False have *: "Suc n \<le> j" "j < Suc n + length order" by simp_all
      then obtain d where d: "j = Suc n + d" by (metis le_Suc_ex)
      have "r ! j = input ! (order ! (j - Suc n))"
        unfolding rj by (rule if_P) (use * in simp)
      also have "order ! (j - Suc n) = (v # order) ! (j - n)" using d by simp
      finally have e: "r ! j = input ! ((v # order) ! (j - n))" .
      show ?thesis unfolding if_P [OF True] by (rule e)
    next
      case F2: False
      then have neg: "\<not> (Suc n \<le> j \<and> j < Suc n + length order)" by auto
      have "r ! j = ?res ! j" unfolding rj using neg by (rule if_not_P)
      also have "\<dots> = result ! j" using False by simp
      finally have e: "r ! j = result ! j" .
      show ?thesis unfolding if_not_P [OF F2] by (rule e)
    qed
  qed
  ultimately show ?case by blast
qed

lemma reorder_eq_map:
  assumes "length input = length order" "\<forall>v\<in>set order. v < length input"
  shows "reorder input order = Some (map (\<lambda>v. input ! v) order)"
proof -
  have "0 + length order \<le> length (replicate (length order) (0::'a))" by simp
  from reorder_loop_enumerate [OF assms(2) this]
  obtain r where r: "reorder_loop input (enumerate 0 order) (replicate (length order) 0) = Some r"
    "length r = length order" "\<forall>j<length order. r ! j = input ! (order ! j)"
    by auto
  have "r = map (\<lambda>v. input ! v) order"
    using r(2,3) by (intro nth_equalityI) simp_all
  then show ?thesis using r(1) assms(1) by (simp add: reorder_def)
qed

lemma index_of_less: "i \<in> set order \<Longrightarrow> index_of i order < length order"
  unfolding index_of_def by (induction order) auto

lemma index_of_nth: "i \<in> set order \<Longrightarrow> order ! index_of i order = i"
  unfolding index_of_def by (induction order) auto

text \<open>
  C8: for every permutation \<open>order\<close> of \<open>[0, k)\<close> and every \<open>x\<close> of length \<open>k\<close>,
  \<^verbatim>\<open>reorder(x, order)\<close> returns \<open>y\<close> with \<open>y[i] = x[order[i]]\<close>, and reordering \<open>y\<close>
  by the inverse permutation gives \<open>x\<close> back.
\<close>

theorem reorder_inverse:
  fixes x :: "'a::zero list"
  assumes "length order = length x" "set order = {..<length x}"
  shows "\<exists>y. reorder x order = Some y
            \<and> (\<forall>i<length x. y ! i = x ! (order ! i))
            \<and> reorder y (inverse_order order) = Some x"
proof -
  let ?y = "map (\<lambda>v. x ! v) order"
  have inx: "\<forall>v\<in>set order. v < length x" using assms(2) by simp
  have y: "reorder x order = Some ?y"
    using assms(1) [symmetric] inx by (rule reorder_eq_map)
  have len: "length ?y = length (inverse_order order)" by (simp add: inverse_order_def)
  have mem: "i \<in> set order" if "i < length order" for i
    using that assms by simp
  have inr: "\<forall>v\<in>set (inverse_order order). v < length ?y"
    using mem by (auto simp: inverse_order_def index_of_less)
  have "reorder ?y (inverse_order order) = Some (map (\<lambda>v. ?y ! v) (inverse_order order))"
    using len inr by (rule reorder_eq_map)
  also have "map (\<lambda>v. ?y ! v) (inverse_order order) = x"
  proof (rule nth_equalityI)
    show "length (map (\<lambda>v. ?y ! v) (inverse_order order)) = length x"
      using assms(1) by (simp add: inverse_order_def)
  next
    fix i assume "i < length (map (\<lambda>v. ?y ! v) (inverse_order order))"
    then have i: "i < length order" by (simp add: inverse_order_def)
    have "map (\<lambda>v. ?y ! v) (inverse_order order) ! i = ?y ! index_of i order"
      using i by (simp add: inverse_order_def)
    also have "\<dots> = x ! (order ! index_of i order)"
      using index_of_less [OF mem [OF i]] by simp
    also have "\<dots> = x ! i" by (simp only: index_of_nth [OF mem [OF i]])
    finally show "map (\<lambda>v. ?y ! v) (inverse_order order) ! i = x ! i" .
  qed
  finally have rt: "reorder ?y (inverse_order order) = Some x" .
  have "\<forall>i<length x. (map (\<lambda>v. x ! v) order) ! i = x ! (order ! i)"
    using assms(1) by simp
  with y rt show ?thesis by blast
qed

theorem reorder_inverse_witness:
  "length [2, 0, 1 :: nat] = length [10, 20, 30 :: int]
   \<and> set [2, 0, 1 :: nat] = {..<length [10, 20, 30 :: int]}
   \<and> reorder [10, 20, 30 :: int] [2, 0, 1] = Some [30, 10, 20]
   \<and> inverse_order [2, 0, 1] = [1, 2, 0]
   \<and> reorder [30, 10, 20 :: int] (inverse_order [2, 0, 1]) = Some [10, 20, 30]"
proof -
  have l: "length [2, 0, 1 :: nat] = length [10, 20, 30 :: int]" by simp
  have s: "set [2, 0, 1 :: nat] = {..<length [10, 20, 30 :: int]}"
    by (simp add: eval_nat_numeral lessThan_Suc insert_commute)
  have r: "reorder [10, 20, 30 :: int] [2, 0, 1] = Some [30, 10, 20]"
    by (simp add: reorder_def enumerate_eq_zip upt_rec)
  have i: "inverse_order [2, 0, 1] = [1, 2, 0]"
    by (simp add: inverse_order_def index_of_def upt_rec)
  from reorder_inverse [OF l s] r
  have "reorder [30, 10, 20 :: int] (inverse_order [2, 0, 1]) = Some [10, 20, 30]" by simp
  with l s r i show ?thesis by blast
qed

section \<open>Properties of the \<^verbatim>\<open>ReduceOpHelper\<close> constructor\<close>

lemma checkInputTypes_eq:
  "checkInputTypes shape encoding ts diags = diags @ concat (map (mismatches shape encoding) ts)"
  by (induction ts arbitrary: diags) (simp_all add: mismatches_def Let_def)

lemma count_mismatches:
  "count_list (concat (map (mismatches shape encoding) ts)) ''shape mismatch''
     = length (filter (\<lambda>t. getShape t \<noteq> shape) ts)"
  "count_list (concat (map (mismatches shape encoding) ts)) ''encoding mismatch''
     = length (filter (\<lambda>t. getEncoding t \<noteq> encoding) ts)"
  by (induction ts) (simp_all add: mismatches_def)

lemma set_mismatches:
  "set (concat (map (mismatches shape encoding) ts)) \<subseteq> {''shape mismatch'', ''encoding mismatch''}"
  by (induction ts) (auto simp: mismatches_def)

text \<open>
  C5: when \<^verbatim>\<open>ReduceOpHelper\<close> is constructed from a reduction with at least one operand,
  construction completes, the helper holds the shape and the encoding of the first
  operand, and the diagnostics emitted are, operand by operand, a \<^verbatim>\<open>shape mismatch\<close>
  for a shape that differs from the first operand's and an \<^verbatim>\<open>encoding mismatch\<close> for an
  encoding that differs: as many of each as there are operands that disagree.
\<close>

theorem ReduceOpHelper_diagnoses_and_completes:
  assumes "getInputTypes rop = firstTy # others"
  shows "\<exists>helper emitted. newReduceOpHelper rop diags = Some (helper, diags @ emitted)
          \<and> srcShape helper = getShape firstTy \<and> srcEncoding helper = getEncoding firstTy
          \<and> emitted = concat (map (mismatches (getShape firstTy) (getEncoding firstTy))
                                   (getInputTypes rop))
          \<and> count_list emitted ''shape mismatch''
                = length (filter (\<lambda>t. getShape t \<noteq> getShape firstTy) (getInputTypes rop))
          \<and> count_list emitted ''encoding mismatch''
                = length (filter (\<lambda>t. getEncoding t \<noteq> getEncoding firstTy) (getInputTypes rop))
          \<and> set emitted \<subseteq> {''shape mismatch'', ''encoding mismatch''}"
proof -
  let ?emitted = "concat (map (mismatches (getShape firstTy) (getEncoding firstTy))
                    (getInputTypes rop))"
  let ?helper = "\<lparr>op = getOperation rop, srcShape = getShape firstTy,
                   srcEncoding = getEncoding firstTy, srcElementTypes = getElementTypes rop,
                   axis = int (getAxis rop)\<rparr>"
  have "newReduceOpHelper rop diags = Some (?helper, diags @ ?emitted)"
    using assms by (simp add: newReduceOpHelper_def checkInputTypes_eq)
  moreover have "srcShape ?helper = getShape firstTy" "srcEncoding ?helper = getEncoding firstTy"
    by simp_all
  ultimately show ?thesis
    using count_mismatches [of "getShape firstTy" "getEncoding firstTy" "getInputTypes rop"]
      set_mismatches [of "getShape firstTy" "getEncoding firstTy" "getInputTypes rop"]
    by blast
qed

theorem ReduceOpHelper_diagnoses_and_completes_witness:
  "getInputTypes mismatchedReduce
     = tensor [128, 64] 1 # [tensor [128, 32] 1, tensor [128, 64] 2, tensor [64] 3]
   \<and> (\<exists>helper. newReduceOpHelper mismatchedReduce [] =
          Some (helper, [''shape mismatch'', ''encoding mismatch'', ''shape mismatch'',
                         ''encoding mismatch''])
        \<and> srcShape helper = [128, 64] \<and> srcEncoding helper = 1)"
proof -
  have i: "getInputTypes mismatchedReduce
             = tensor [128, 64] 1 # [tensor [128, 32] 1, tensor [128, 64] 2, tensor [64] 3]"
    by (simp add: mismatchedReduce_def)
  from ReduceOpHelper_diagnoses_and_completes [OF i, of "[]"] obtain helper emitted where
    h: "newReduceOpHelper mismatchedReduce [] = Some (helper, [] @ emitted)"
      "srcShape helper = getShape (tensor [128, 64] 1)"
      "srcEncoding helper = getEncoding (tensor [128, 64] 1)"
      "emitted = concat (map (mismatches (getShape (tensor [128, 64] 1))
                  (getEncoding (tensor [128, 64] 1))) (getInputTypes mismatchedReduce))"
    by blast
  from h(4) have "emitted
        = [''shape mismatch'', ''encoding mismatch'', ''shape mismatch'', ''encoding mismatch'']"
    by (simp add: mismatchedReduce_def tensor_def mismatches_def)
  with h(1,2,3) i show ?thesis by (simp add: tensor_def)
qed

section \<open>Properties of \<^verbatim>\<open>CallGraph\<close>\<close>

subsection \<open>\<^verbatim>\<open>build\<close> records every call site once\<close>

lemma set_callSitesOf_emplace_back:
  "set (callSitesOf (emplace_back p e m)) = insert (fst e) (set (callSitesOf m))"
  by (induction m) (auto split: if_splits)

lemma distinct_callSitesOf_emplace_back:
  "distinct (callSitesOf (emplace_back p e m))
     \<longleftrightarrow> distinct (callSitesOf m) \<and> fst e \<notin> set (callSitesOf m)"
  by (induction m) (auto simp: set_callSitesOf_emplace_back split: if_splits)

lemma build_op_callSites:
  assumes "build_op operation cg = Some cg'"
  shows "set (callSites cg') \<subseteq> insert (opHandle operation) (set (callSites cg))"
    and "distinct (callSites cg) \<Longrightarrow> opHandle operation \<notin> set (callSites cg) \<Longrightarrow> distinct (callSites cg')"
  using assms
  by (auto simp: build_op_def callSites_def set_callSitesOf_emplace_back
      distinct_callSitesOf_emplace_back Let_def
      split: OpKind.splits option.splits if_splits)

lemma build_ops_callSites:
  "build_ops ops cg = Some cg' \<Longrightarrow> distinct (map opHandle ops) \<Longrightarrow> distinct (callSites cg)
     \<Longrightarrow> set (callSites cg) \<inter> opHandle ` set ops = {}
     \<Longrightarrow> distinct (callSites cg') \<and> set (callSites cg') \<subseteq> set (callSites cg) \<union> opHandle ` set ops"
proof (induction ops arbitrary: cg)
  case Nil
  then show ?case by simp
next
  case (Cons operation rest)
  from Cons.prems(1) obtain cg1 where s: "build_op operation cg = Some cg1"
    and r: "build_ops rest cg1 = Some cg'" by (auto split: option.splits)
  from Cons.prems(4) have nin: "opHandle operation \<notin> set (callSites cg)" by auto
  from build_op_callSites [OF s] Cons.prems(3) nin
  have d1: "distinct (callSites cg1)"
    and s1: "set (callSites cg1) \<subseteq> insert (opHandle operation) (set (callSites cg))" by auto
  from Cons.prems(2) have dr: "distinct (map opHandle rest)"
    and nr: "opHandle operation \<notin> opHandle ` set rest" by auto
  have "x \<notin> opHandle ` set rest" if "x \<in> set (callSites cg1)" for x
  proof -
    from s1 that have "x = opHandle operation \<or> x \<in> set (callSites cg)" by auto
    then show ?thesis
    proof
      assume "x = opHandle operation"
      with nr show ?thesis by simp
    next
      assume "x \<in> set (callSites cg)"
      with Cons.prems(4) show ?thesis by auto
    qed
  qed
  then have "set (callSites cg1) \<inter> opHandle ` set rest = {}" by auto
  from Cons.IH [OF r dr d1 this] s1 show ?case by auto
qed

lemma build_callSites_distinct:
  "build moduleOps = Some cg \<Longrightarrow> distinct (map opHandle moduleOps) \<Longrightarrow> distinct (callSites cg)"
  using build_ops_callSites [of moduleOps "\<lparr>callGraph = [], roots = []\<rparr>" cg]
  by (simp add: build_def callSites_def)

lemma build_diamondModule: "build diamondModule = Some diamond"
  by (simp add: build_def build_op_def diamondModule_def mkCallOp_def mkFuncOp_def diamond_def)

lemma build_cyclicModule: "build cyclicModule = Some cyclicPair"
  by (simp add: build_def build_op_def cyclicModule_def mkCallOp_def mkFuncOp_def cyclicPair_def)

lemma build_singleCallModule: "build singleCallModule = Some singleCall"
  by (simp add: build_def build_op_def singleCallModule_def mkCallOp_def mkFuncOp_def singleCall_def)

subsection \<open>A walk is its sequence of hook calls\<close>

lemma updateEdgeCalls_fold:
  "updateEdgeCalls eo ef c g s = fold (applyCall ef nf) (edgeCalls eo c g) s"
  by (cases eo) (simp_all add: updateEdgeCalls_def edgeCalls_def)

lemma doWalk_walkCalls:
  "\<forall>s. doWalk eo no cg ef nf f (V, s) = runCalls ef nf V s (walkCalls eo no cg f V)"
  "\<forall>s. doWalk_edges eo cg ef nf es (V, s) = runCalls ef nf V s (walkCalls_edges eo cg es V)"
proof (induct eo no cg f V and eo cg es V rule: walkCalls_walkCalls_edges.induct)
  case (1 eo no cg f V)
  then show ?case
    by (cases no) (auto simp: doWalk.simps walkCalls.simps runCalls_def split: sum.splits)
next
  case (2 eo cg V)
  then show ?case by (simp add: runCalls_def)
next
  case (3 eo cg c g rest V)
  show ?case
  proof (cases "c \<in> V")
    case True
    then show ?thesis by (simp add: runCalls_def)
  next
    case False
    note IH1 = 3(1) [OF False]
    show ?thesis
    proof (cases "walkCalls PreOrder PreOrder cg g (insert c V)")
      case (Inl e)
      then show ?thesis using False IH1 by (simp add: runCalls_def)
    next
      case (Inr t)
      note IH2 = 3(2) [OF False Inr]
      have "insert c V - {c} = V" using False by auto
      then show ?thesis using False IH1 IH2 Inr
        by (auto simp: runCalls_def updateEdgeCalls_fold [where nf = nf] split: sum.splits)
    qed
  qed
qed

lemma walk_roots_walkCalls:
  "walk_roots eo no cg ef nf rs ({}, s) = runCalls ef nf {} s (walkCalls_roots eo no cg rs)"
proof (induction rs arbitrary: s)
  case Nil
  then show ?case by (simp add: runCalls_def)
next
  case (Cons r rs)
  have d: "doWalk eo no cg ef nf r ({}, s) = runCalls ef nf {} s (walkCalls eo no cg r {})"
    by (simp only: doWalk_walkCalls(1) [rule_format])
  show ?case
  proof (cases "walkCalls eo no cg r {}")
    case (Inl e)
    then show ?thesis by (simp add: d runCalls_def)
  next
    case (Inr t)
    show ?thesis
    proof (cases "walkCalls_roots eo no cg rs")
      case (Inl e)
      then show ?thesis using Inr Cons.IH by (simp add: d runCalls_def)
    next
      case Inr2: (Inr t')
      then show ?thesis using Inr Cons.IH by (simp add: d runCalls_def)
    qed
  qed
qed

lemma walk_walkCalls:
  "walk eo no cg ef nf s =
     (case walkCalls_roots eo no cg (roots cg) of
        Inl e \<Rightarrow> Inl e
      | Inr t \<Rightarrow> Inr (fold (applyCall ef nf) t s))"
  by (simp add: walk_def walk_roots_walkCalls runCalls_def split: sum.splits)

lemma fold_record: "fold (applyCall recordEdge recordNode) t t0 = t0 @ t"
proof (induction t arbitrary: t0)
  case Nil
  then show ?case by simp
next
  case (Cons a t)
  then show ?case by (cases a) (simp_all add: recordEdge_def recordNode_def)
qed

lemma walk_record:
  "walk eo no cg recordEdge recordNode [] = walkCalls_roots eo no cg (roots cg)"
  by (simp add: walk_walkCalls fold_record split: sum.splits)

lemma fold_traced:
  "fold (applyCall (tracedEdgeFn ef) (tracedNodeFn nf)) t (t0, s)
     = (t0 @ t, fold (applyCall ef nf) t s)"
proof (induction t arbitrary: t0 s)
  case Nil
  then show ?case by simp
next
  case (Cons a t)
  then show ?case by (cases a) (simp_all add: tracedEdgeFn_def tracedNodeFn_def)
qed

lemma walk_traced:
  "walk eo no cg (tracedEdgeFn ef) (tracedNodeFn nf) (t0, s) =
     (case walk eo no cg recordEdge recordNode [] of
        Inl e \<Rightarrow> Inl e
      | Inr t \<Rightarrow> Inr (t0 @ t, fold (applyCall ef nf) t s))"
  by (simp add: walk_walkCalls fold_traced fold_record split: sum.splits)

subsection \<open>The example modules\<close>

lemma walk_diamond_Pre:
  "walk PreOrder PreOrder diamond recordEdge recordNode [] = Inr diamondCalls"
  by (simp add: walk_def doWalk.simps diamond_def edges_of_def updateEdgeCalls_def
      recordEdge_def recordNode_def diamondCalls_def)

lemma walk_diamond_Post:
  "walk PostOrder PreOrder diamond recordEdge recordNode [] = Inr diamondCalls"
  by (simp add: walk_def doWalk.simps diamond_def edges_of_def updateEdgeCalls_def
      recordEdge_def recordNode_def diamondCalls_def)

lemma walk_cyclicPair:
  "walk PreOrder PreOrder cyclicPair recordEdge recordNode [] = Inl CycleDetected"
  by (simp add: walk_def doWalk.simps cyclicPair_def edges_of_def updateEdgeCalls_def
      recordEdge_def recordNode_def)

lemma walk_traced_diamond:
  "walk PreOrder PreOrder diamond (tracedEdgeFn countEdgeFn) (tracedNodeFn countNodeFn) ([], 0)
     = Inr (diamondCalls, 1622)"
  by (simp add: walk_def doWalk.simps diamond_def edges_of_def updateEdgeCalls_def
      tracedEdgeFn_def tracedNodeFn_def countEdgeFn_def countNodeFn_def diamondCalls_def)

lemma edgeRel_iff: "(f, g) \<in> edgeRel cg \<longleftrightarrow> (\<exists>c. (c, g) \<in> set (edges_of cg f))"
proof
  assume "(f, g) \<in> edgeRel cg"
  then show "\<exists>c. (c, g) \<in> set (edges_of cg f)" by (auto simp: edgeRel_def)
next
  assume "\<exists>c. (c, g) \<in> set (edges_of cg f)"
  then obtain c where c: "(c, g) \<in> set (edges_of cg f)" ..
  then obtain es where "map_of (callGraph cg) f = Some es"
    by (cases "map_of (callGraph cg) f") (auto simp: edges_of_def)
  then have "f \<in> fst ` set (callGraph cg)" by (metis map_of_eq_None_iff option.distinct(1))
  with c show "(f, g) \<in> edgeRel cg" by (force simp: edgeRel_def)
qed

lemma acyclic_by_rank:
  fixes rank :: "'a \<Rightarrow> nat"
  assumes "\<And>a b. (a, b) \<in> r \<Longrightarrow> rank b < rank a"
  shows "acyclic r"
proof -
  have "r\<inverse> \<subseteq> measure rank" using assms by auto
  then have "wf (r\<inverse>)" by (rule wf_subset [OF wf_measure])
  then have "acyclic (r\<inverse>)" by (rule wf_acyclic)
  then show ?thesis by (simp only: acyclic_converse)
qed

lemma edgeRel_diamond: "edgeRel diamond = {(1, 2), (1, 3), (2, 4), (3, 4), (4, 5)}"
  by (auto simp: edgeRel_def diamond_def edges_of_def)

lemma acyclic_diamond: "acyclic (edgeRel diamond)"
  by (rule acyclic_by_rank [where rank = "\<lambda>x. 6 - x"]) (auto simp: edgeRel_diamond)

lemma distinct_callSites_diamond: "distinct (callSites diamond)"
  by (simp add: callSites_def diamond_def)

lemma cycleReachable_cyclicPair: "cycleReachable cyclicPair 1"
proof -
  have a: "(1, 2) \<in> edgeRel cyclicPair" and b: "(2, 1) \<in> edgeRel cyclicPair"
    by (simp_all add: edgeRel_iff cyclicPair_def edges_of_def)
  from a b have "(1, 1) \<in> (edgeRel cyclicPair)\<^sup>+" by (rule trancl_into_trancl2 [OF _ r_into_trancl])
  then show ?thesis unfolding cycleReachable_def by blast
qed

subsection \<open>Which edge hook calls a walk makes\<close>

text \<open>
  Whatever \<^verbatim>\<open>UpdateEdgeOrder\<close> is, lines 199 to 205 call the edge hook twice, and both
  calls stand before the recursive call: a walk with \<^verbatim>\<open>UpdateEdgeOrder = PostOrder\<close> is the
  walk with \<^verbatim>\<open>UpdateEdgeOrder = PreOrder\<close>.
\<close>

lemma updateEdgeCalls_twice:
  "updateEdgeCalls eo updateEdgeFn callOp callee s
     = updateEdgeFn callOp callee (updateEdgeFn callOp callee s)"
  by (cases eo) (simp_all add: updateEdgeCalls_def)

lemma edgeCalls_twice: "edgeCalls eo c g = [EdgeCall c g, EdgeCall c g]"
  by (cases eo) (simp_all add: edgeCalls_def)

lemma walkCalls_edge_order_ignored:
  "walkCalls PostOrder no cg f V = walkCalls PreOrder no cg f V"
  "walkCalls_edges PostOrder cg es V = walkCalls_edges PreOrder cg es V"
proof -
  have e: "walkCalls_edges PostOrder cg es V = walkCalls_edges PreOrder cg es V" for es V
  proof (induction es)
    case Nil
    show ?case by simp
  next
    case (Cons a es)
    obtain c g where a: "a = (c, g)" by (cases a)
    show ?case unfolding a by (simp add: Cons.IH edgeCalls_twice cong: sum.case_cong)
  qed
  show "walkCalls_edges PostOrder cg es V = walkCalls_edges PreOrder cg es V" by (rule e)
  show "walkCalls PostOrder no cg f V = walkCalls PreOrder no cg f V"
    by (simp add: walkCalls.simps e)
qed

lemma walk_edge_order_ignored:
  "walk PostOrder no cg updateEdgeFn updateNodeFn s = walk PreOrder no cg updateEdgeFn updateNodeFn s"
proof -
  have "walkCalls_roots PostOrder no cg rs = walkCalls_roots PreOrder no cg rs" for rs
    by (induction rs) (simp_all add: walkCalls_edge_order_ignored(1) cong: sum.case_cong)
  then show ?thesis by (simp add: walk_walkCalls)
qed

text \<open>
  C1 (the edge hook is invoked exactly once per edge per walk, before the recursion into
  the callee when \<^verbatim>\<open>UpdateEdgeOrder = PreOrder\<close> and after it when
  \<^verbatim>\<open>UpdateEdgeOrder = PostOrder\<close>) does not hold of the code. On the module with the single
  call \<open>main \<rightarrow> a\<close> the traversal passes the edge once, from the root \<open>main\<close>. With
  \<^verbatim>\<open>PreOrder\<close> the hook is called twice on it. With \<^verbatim>\<open>PostOrder\<close> it is called twice as
  well, both times before the node hook of the callee \<open>a\<close>, that is before the recursion
  into \<open>a\<close> and not after it. The last call of each sequence is the walk from the second
  root, \<open>a\<close>.
\<close>

theorem walk_edge_hook_called_twice:
  "build singleCallModule = Some singleCall
   \<and> walk PreOrder PreOrder singleCall recordEdge recordNode []
       = Inr [NodeCall 1, EdgeCall 10 2, EdgeCall 10 2, NodeCall 2, NodeCall 2]
   \<and> walk PostOrder PreOrder singleCall recordEdge recordNode []
       = Inr [NodeCall 1, EdgeCall 10 2, EdgeCall 10 2, NodeCall 2, NodeCall 2]
   \<and> walk PostOrder PostOrder singleCall recordEdge recordNode []
       = Inr [EdgeCall 10 2, EdgeCall 10 2, NodeCall 2, NodeCall 1, NodeCall 2]"
  by (simp add: build_def build_op_def singleCallModule_def mkCallOp_def mkFuncOp_def
      walk_def doWalk.simps singleCall_def edges_of_def updateEdgeCalls_def
      recordEdge_def recordNode_def)

subsection \<open>Cycles are fatal, and nothing else is\<close>

lemma cycleReachable_step:
  assumes "cycleReachable cg f"
  shows "\<exists>(c, g) \<in> set (edges_of cg f). cycleReachable cg g"
proof -
  from assms obtain h where h: "(f, h) \<in> (edgeRel cg)\<^sup>*" "(h, h) \<in> (edgeRel cg)\<^sup>+"
    by (auto simp: cycleReachable_def)
  then have "(f, h) \<in> (edgeRel cg)\<^sup>+" by (rule rtrancl_trancl_trancl)
  then obtain g where g: "(f, g) \<in> edgeRel cg" "(g, h) \<in> (edgeRel cg)\<^sup>*"
    by (blast dest: tranclD)
  from g(1) obtain c where "(c, g) \<in> set (edges_of cg f)" by (auto simp: edgeRel_iff)
  moreover have "cycleReachable cg g" using g(2) h(2) by (auto simp: cycleReachable_def)
  ultimately show ?thesis by blast
qed

lemma walkCalls_cycle:
  "cycleReachable cg f \<longrightarrow> walkCalls eo no cg f V = Inl CycleDetected"
  "(\<exists>(c, g) \<in> set es. cycleReachable cg g) \<longrightarrow> walkCalls_edges eo cg es V = Inl CycleDetected"
proof (induct eo no cg f V and eo cg es V rule: walkCalls_walkCalls_edges.induct)
  case (1 eo no cg f V)
  then show ?case using cycleReachable_step [of cg f] by (auto simp: walkCalls.simps)
next
  case (2 eo cg V)
  then show ?case by simp
next
  case (3 eo cg c g rest V)
  show ?case
  proof (cases "c \<in> V")
    case True
    then show ?thesis by simp
  next
    case False
    note IH1 = 3(1) [OF False]
    show ?thesis
    proof (cases "walkCalls PreOrder PreOrder cg g (insert c V)")
      case (Inl e)
      then show ?thesis using False by (cases e) simp
    next
      case (Inr t)
      note IH2 = 3(2) [OF False Inr]
      from Inr IH1 have "\<not> cycleReachable cg g" by auto
      then show ?thesis using False Inr IH2 by (auto split: sum.splits)
    qed
  qed
qed

lemma callSites_entry_unique:
  "distinct (callSitesOf l) \<Longrightarrow> (f, es) \<in> set l \<Longrightarrow> (f', es') \<in> set l
     \<Longrightarrow> (c, g) \<in> set es \<Longrightarrow> (c, g') \<in> set es' \<Longrightarrow> f = f'"
proof (induction l)
  case Nil
  then show ?case by simp
next
  case (Cons a l)
  obtain k ks where a: "a = (k, ks)" by (cases a)
  from Cons.prems(1) a have d: "distinct (callSitesOf l)"
    and dj: "set (map fst ks) \<inter> set (callSitesOf l) = {}" by auto
  have in_l: "c \<in> set (callSitesOf l)" if "(h, hs) \<in> set l" "(c, x) \<in> set hs" for h hs x
    using that by (rule callSitesOf_entry)
  have in_k: "c \<in> set (map fst ks)" if "(c, x) \<in> set ks" for x
    using that by force
  show ?case
  proof (cases "(f, es) = a")
    case True
    show ?thesis
    proof (cases "(f', es') = a")
      case T2: True
      have "(f, es) = (f', es')" using True T2 [symmetric] by (rule trans)
      then show ?thesis by simp
    next
      case False
      with Cons.prems(3) have "(f', es') \<in> set l" by simp
      from in_l [OF this Cons.prems(5)] in_k [of g] True a Cons.prems(4) dj
      show ?thesis by auto
    qed
  next
    case False
    with Cons.prems(2) have m1: "(f, es) \<in> set l" by simp
    show ?thesis
    proof (cases "(f', es') = a")
      case True
      from in_l [OF m1 Cons.prems(4)] in_k [of g'] True a Cons.prems(5) dj
      show ?thesis by auto
    next
      case F2: False
      with Cons.prems(3) have "(f', es') \<in> set l" by simp
      from Cons.IH [OF d m1 this Cons.prems(4,5)] show ?thesis .
    qed
  qed
qed

lemma edges_of_entry:
  assumes "(c, g) \<in> set (edges_of cg f)"
  shows "\<exists>es. (f, es) \<in> set (callGraph cg) \<and> (c, g) \<in> set es"
proof -
  from assms obtain es where es: "map_of (callGraph cg) f = Some es" "(c, g) \<in> set es"
    by (cases "map_of (callGraph cg) f") (auto simp: edges_of_def)
  from es(1) have "(f, es) \<in> set (callGraph cg)" by (rule map_of_SomeD)
  with es(2) show ?thesis by blast
qed

lemma callSite_caller_unique:
  assumes "distinct (callSites cg)" "(c, g) \<in> set (edges_of cg f)" "(c, g') \<in> set (edges_of cg f')"
  shows "f = f'"
proof -
  from edges_of_entry [OF assms(2)] obtain es where es: "(f, es) \<in> set (callGraph cg)" "(c, g) \<in> set es"
    by blast
  from edges_of_entry [OF assms(3)] obtain es' where es': "(f', es') \<in> set (callGraph cg)" "(c, g') \<in> set es'"
    by blast
  from assms(1) have "distinct (callSitesOf (callGraph cg))" by (simp add: callSites_def)
  from this es(1) es'(1) es(2) es'(2) show ?thesis by (rule callSites_entry_unique)
qed

lemma reachCalls_callee:
  assumes "(c, g) \<in> set (edges_of cg f)"
  shows "c \<in> reachCalls cg f" "reachCalls cg g \<subseteq> reachCalls cg f"
proof -
  show "c \<in> reachCalls cg f" using assms by (auto simp: reachCalls_def)
  have "(f, g) \<in> edgeRel cg" using assms by (auto simp: edgeRel_iff)
  then show "reachCalls cg g \<subseteq> reachCalls cg f"
    by (auto simp: reachCalls_def intro: converse_rtrancl_into_rtrancl)
qed

lemma callSite_not_below:
  assumes "acyclic (edgeRel cg)" "distinct (callSites cg)" "(c, g) \<in> set (edges_of cg f)"
  shows "c \<notin> reachCalls cg g"
proof
  assume "c \<in> reachCalls cg g"
  then obtain h g' where h: "(g, h) \<in> (edgeRel cg)\<^sup>*" "(c, g') \<in> set (edges_of cg h)"
    by (auto simp: reachCalls_def)
  from callSite_caller_unique [OF assms(2,3) h(2)] have "f = h" .
  moreover have "(f, g) \<in> edgeRel cg" using assms(3) by (auto simp: edgeRel_iff)
  ultimately have "(f, f) \<in> (edgeRel cg)\<^sup>+" using h(1) by (simp add: rtrancl_into_trancl2)
  with assms(1) show False by (auto simp: acyclic_def)
qed

lemma walkCalls_acyclic:
  "acyclic (edgeRel cg) \<longrightarrow> distinct (callSites cg) \<longrightarrow> V \<inter> reachCalls cg f = {}
     \<longrightarrow> (\<exists>t. walkCalls eo no cg f V = Inr t)"
  "acyclic (edgeRel cg) \<longrightarrow> distinct (callSites cg)
     \<longrightarrow> (\<forall>(c, g) \<in> set es. c \<notin> V \<and> V \<inter> reachCalls cg g = {} \<and> c \<notin> reachCalls cg g)
     \<longrightarrow> (\<exists>t. walkCalls_edges eo cg es V = Inr t)"
proof (induct eo no cg f V and eo cg es V rule: walkCalls_walkCalls_edges.induct)
  case (1 eo no cg f V)
  show ?case
  proof (intro impI)
    assume a: "acyclic (edgeRel cg)" and d: "distinct (callSites cg)"
      and v: "V \<inter> reachCalls cg f = {}"
    have "\<forall>(c, g) \<in> set (edges_of cg f). c \<notin> V \<and> V \<inter> reachCalls cg g = {} \<and> c \<notin> reachCalls cg g"
      using v reachCalls_callee [of _ _ cg f] callSite_not_below [OF a d, of _ _ f] by blast
    with 1 a d obtain t where "walkCalls_edges eo cg (edges_of cg f) V = Inr t" by blast
    then show "\<exists>t. walkCalls eo no cg f V = Inr t" by (simp add: walkCalls.simps)
  qed
next
  case (2 eo cg V)
  then show ?case by simp
next
  case (3 eo cg c g rest V)
  show ?case
  proof (intro impI)
    assume a: "acyclic (edgeRel cg)" and d: "distinct (callSites cg)"
      and e: "\<forall>(c, g) \<in> set ((c, g) # rest). c \<notin> V \<and> V \<inter> reachCalls cg g = {} \<and> c \<notin> reachCalls cg g"
    from e have nin: "c \<notin> V" and vg: "V \<inter> reachCalls cg g = {}" and cg': "c \<notin> reachCalls cg g"
      by auto
    from vg cg' have "insert c V \<inter> reachCalls cg g = {}" by auto
    with 3(1) [OF nin] a d obtain t where t: "walkCalls PreOrder PreOrder cg g (insert c V) = Inr t"
      by blast
    from e have "\<forall>(c, g) \<in> set rest. c \<notin> V \<and> V \<inter> reachCalls cg g = {} \<and> c \<notin> reachCalls cg g"
      by auto
    with 3(2) [OF nin t] a d obtain t' where "walkCalls_edges eo cg rest V = Inr t'" by blast
    with nin t show "\<exists>t. walkCalls_edges eo cg ((c, g) # rest) V = Inr t" by simp
  qed
qed

lemma walkCalls_roots_cycle:
  "\<exists>r \<in> set rs. cycleReachable cg r \<Longrightarrow> walkCalls_roots eo no cg rs = Inl CycleDetected"
proof (induction rs)
  case Nil
  then show ?case by simp
next
  case (Cons r rs)
  show ?case
  proof (cases "walkCalls eo no cg r {}")
    case (Inl e)
    then show ?thesis by (cases e) simp
  next
    case (Inr t)
    then have "\<not> cycleReachable cg r" using walkCalls_cycle(1) [of cg r eo no "{}"] by auto
    with Cons.prems have "\<exists>r \<in> set rs. cycleReachable cg r" by auto
    then have "walkCalls_roots eo no cg rs = Inl CycleDetected" by (rule Cons.IH)
    then show ?thesis using Inr by simp
  qed
qed

lemma walkCalls_roots_acyclic:
  assumes "acyclic (edgeRel cg)" "distinct (callSites cg)"
  shows "\<exists>t. walkCalls_roots eo no cg rs = Inr t"
proof (induction rs)
  case Nil
  then show ?case by simp
next
  case (Cons r rs)
  from walkCalls_acyclic(1) [of cg "{}" r eo no] assms
  obtain t where "walkCalls eo no cg r {} = Inr t" by auto
  moreover from Cons.IH obtain t' where "walkCalls_roots eo no cg rs = Inr t'" ..
  ultimately show ?case by simp
qed

lemma walk_returns_on_built_acyclic:
  assumes "build moduleOps = Some cg" "distinct (map opHandle moduleOps)" "acyclic (edgeRel cg)"
  shows "\<exists>s'. walk eo no cg updateEdgeFn updateNodeFn s = Inr s'"
proof -
  from assms(1,2) have "distinct (callSites cg)" by (rule build_callSites_distinct)
  with assms(3) obtain t where "walkCalls_roots eo no cg (roots cg) = Inr t"
    using walkCalls_roots_acyclic [of cg eo no "roots cg"] by blast
  then show ?thesis by (simp add: walk_walkCalls)
qed

text \<open>
  C3: when a cycle of the call relation is reachable from a root, \<^verbatim>\<open>walk\<close> ends in the fatal
  error (it neither loops nor returns); on an acyclic call graph whose call sites are
  pairwise distinct, as \<open>build\<close> records them (lemmas \<open>build_callSites_distinct\<close> and
  \<open>walk_returns_on_built_acyclic\<close>), the fatal branch is not reached and \<^verbatim>\<open>walk\<close> returns.
\<close>

theorem walk_fatal_on_cycle:
  "((\<exists>r \<in> set (roots cg). cycleReachable cg r)
       \<longrightarrow> walk eo no cg updateEdgeFn updateNodeFn s = Inl CycleDetected)
   \<and> (acyclic (edgeRel cg) \<and> distinct (callSites cg)
       \<longrightarrow> (\<exists>s'. walk eo no cg updateEdgeFn updateNodeFn s = Inr s'))"
proof (intro conjI impI)
  assume "\<exists>r \<in> set (roots cg). cycleReachable cg r"
  then have "walkCalls_roots eo no cg (roots cg) = Inl CycleDetected"
    by (rule walkCalls_roots_cycle)
  then show "walk eo no cg updateEdgeFn updateNodeFn s = Inl CycleDetected"
    by (simp add: walk_walkCalls)
next
  assume "acyclic (edgeRel cg) \<and> distinct (callSites cg)"
  then obtain t where "walkCalls_roots eo no cg (roots cg) = Inr t"
    using walkCalls_roots_acyclic [of cg eo no "roots cg"] by blast
  then show "\<exists>s'. walk eo no cg updateEdgeFn updateNodeFn s = Inr s'"
    by (simp add: walk_walkCalls)
qed

theorem walk_fatal_on_cycle_witness:
  "cycleReachable cyclicPair 1
   \<and> walk PreOrder PostOrder cyclicPair recordEdge recordNode [] = Inl CycleDetected
   \<and> acyclic (edgeRel diamond) \<and> distinct (callSites diamond)
   \<and> (\<exists>s'. walk PreOrder PostOrder diamond recordEdge recordNode [] = Inr s')"
proof -
  have r: "\<exists>r \<in> set (roots cyclicPair). cycleReachable cyclicPair r"
    using cycleReachable_cyclicPair by (simp add: cyclicPair_def)
  from walk_fatal_on_cycle [of cyclicPair PreOrder PostOrder recordEdge recordNode "[]"] r
  have 1: "walk PreOrder PostOrder cyclicPair recordEdge recordNode [] = Inl CycleDetected"
    by blast
  from walk_fatal_on_cycle [of diamond PreOrder PostOrder recordEdge recordNode "[]"]
    acyclic_diamond distinct_callSites_diamond
  have 2: "\<exists>s'. walk PreOrder PostOrder diamond recordEdge recordNode [] = Inr s'"
    by blast
  from 1 2 cycleReachable_cyclicPair acyclic_diamond distinct_callSites_diamond
  show ?thesis by blast
qed

subsection \<open>Two walks make the same calls\<close>

text \<open>
  C4: when a walk with the hooks \<open>updateEdgeFn\<close> and \<open>updateNodeFn\<close> returns, having made
  the sequence \<open>t1\<close> of hook calls and left the hooks' state \<open>s1\<close>, a second walk with the
  same hooks, started in \<open>s1\<close> on the unchanged graph, returns too and makes the same
  sequence \<open>t1\<close> of calls, in the same order.
\<close>

theorem walk_deterministic:
  assumes "walk eo no cg (tracedEdgeFn updateEdgeFn) (tracedNodeFn updateNodeFn) ([], s) = Inr (t1, s1)"
  shows "\<exists>s2. walk eo no cg (tracedEdgeFn updateEdgeFn) (tracedNodeFn updateNodeFn) ([], s1)
                = Inr (t1, s2)"
proof (cases "walk eo no cg recordEdge recordNode []")
  case (Inl e)
  with assms show ?thesis by (simp add: walk_traced)
next
  case (Inr t)
  with assms have "t1 = t" by (simp add: walk_traced)
  with Inr show ?thesis by (simp add: walk_traced)
qed

theorem walk_deterministic_witness:
  "walk PreOrder PreOrder diamond (tracedEdgeFn countEdgeFn) (tracedNodeFn countNodeFn) ([], 0)
     = Inr (diamondCalls, 1622)
   \<and> (\<exists>s2. walk PreOrder PreOrder diamond (tracedEdgeFn countEdgeFn) (tracedNodeFn countNodeFn)
              ([], 1622) = Inr (diamondCalls, s2))"
  using walk_deterministic [OF walk_traced_diamond] walk_traced_diamond by blast

subsection \<open>\<^verbatim>\<open>topologicalSort\<close>\<close>

lemma doTopologicalSort_mono:
  "doTopologicalSort n cg f funcs = Some r \<Longrightarrow> doTopologicalSort (n + k) cg f funcs = Some r"
  "doTopologicalSort_edges n cg es funcs = Some r \<Longrightarrow> doTopologicalSort_edges (n + k) cg es funcs = Some r"
proof (induct n cg f funcs and n cg es funcs arbitrary: r and r
       rule: doTopologicalSort_doTopologicalSort_edges.induct)
  case (1 cg funcOp funcs)
  then show ?case by simp
next
  case (2 depth cg funcOp funcs)
  then show ?case by simp
next
  case (3 depth cg funcs)
  then show ?case by simp
next
  case (4 depth cg callOp callee rest funcs)
  from 4(3) obtain funcs' where a: "doTopologicalSort depth cg callee funcs = Some funcs'"
    and b: "doTopologicalSort_edges depth cg rest funcs' = Some r"
    by (auto split: option.splits)
  from 4(1) [OF a] 4(2) [OF a b] show ?case by simp
qed

lemma doTopologicalSort_cycle:
  "cycleReachable cg f \<longrightarrow> doTopologicalSort n cg f funcs = None"
  "(\<exists>(c, g) \<in> set es. cycleReachable cg g) \<longrightarrow> doTopologicalSort_edges n cg es funcs = None"
proof (induct n cg f funcs and n cg es funcs
       rule: doTopologicalSort_doTopologicalSort_edges.induct)
  case (1 cg funcOp funcs)
  then show ?case by simp
next
  case (2 depth cg funcOp funcs)
  then show ?case using cycleReachable_step [of cg funcOp] by auto
next
  case (3 depth cg funcs)
  then show ?case by simp
next
  case (4 depth cg callOp callee rest funcs)
  show ?case
  proof (cases "doTopologicalSort depth cg callee funcs")
    case None
    then show ?thesis by simp
  next
    case (Some funcs')
    with 4(1) have "\<not> cycleReachable cg callee" by auto
    with 4(2) [OF Some] Some show ?thesis by auto
  qed
qed

lemma finite_edgeRel: "finite (edgeRel cg)"
  by (simp add: edgeRel_def)

lemma doTopologicalSort_edges_total:
  assumes "\<forall>(c, g) \<in> set es. \<exists>n. \<forall>funcs. doTopologicalSort n cg g funcs \<noteq> None"
  shows "\<exists>n. \<forall>funcs. doTopologicalSort_edges n cg es funcs \<noteq> None"
  using assms
proof (induction es)
  case Nil
  then show ?case by simp
next
  case (Cons e es)
  obtain c g where e: "e = (c, g)" by (cases e)
  from Cons.prems e obtain n1 where n1: "\<forall>funcs. doTopologicalSort n1 cg g funcs \<noteq> None" by auto
  from Cons obtain n2 where n2: "\<forall>funcs. doTopologicalSort_edges n2 cg es funcs \<noteq> None" by auto
  have "doTopologicalSort_edges (n1 + n2) cg ((c, g) # es) funcs \<noteq> None" for funcs
  proof -
    from n1 obtain funcs' where a: "doTopologicalSort n1 cg g funcs = Some funcs'" by auto
    from n2 obtain r where b: "doTopologicalSort_edges n2 cg es funcs' = Some r" by auto
    from doTopologicalSort_mono(1) [OF a, of n2] doTopologicalSort_mono(2) [OF b, of n1]
    show ?thesis by (simp add: add.commute)
  qed
  with e show ?case by blast
qed

lemma doTopologicalSort_total:
  assumes "acyclic (edgeRel cg)"
  shows "\<exists>n. \<forall>funcs. doTopologicalSort n cg f funcs \<noteq> None"
proof -
  have "wf ((edgeRel cg)\<inverse>)" using finite_edgeRel assms by (rule finite_acyclic_wf_converse)
  then show ?thesis
  proof (induction f rule: wf_induct_rule)
    case (less f)
    have "\<forall>(c, g) \<in> set (edges_of cg f). \<exists>n. \<forall>funcs. doTopologicalSort n cg g funcs \<noteq> None"
      using less by (auto simp: edgeRel_iff)
    then obtain n where "\<forall>funcs. doTopologicalSort_edges n cg (edges_of cg f) funcs \<noteq> None"
      using doTopologicalSort_edges_total by blast
    then have "\<forall>funcs. doTopologicalSort (Suc n) cg f funcs \<noteq> None" by simp
    then show ?case ..
  qed
qed

lemma calleesFollow_append:
  "calleesFollow cg a \<Longrightarrow> calleesFollow cg b \<Longrightarrow> calleesFollow cg (a @ b)"
  by (induction a) auto

lemma calleesFollow_split:
  "calleesFollow cg (xs @ f # ys) \<Longrightarrow> (c, g) \<in> set (edges_of cg f) \<Longrightarrow> g \<in> set ys"
  by (induction xs) auto

lemma doTopologicalSort_result:
  "doTopologicalSort n cg f funcs = Some r \<longrightarrow>
     (\<exists>zs. r = funcs @ f # zs \<and> calleesFollow cg (f # zs))"
  "doTopologicalSort_edges n cg es funcs = Some r \<longrightarrow>
     (\<exists>zs. r = funcs @ zs \<and> calleesFollow cg zs \<and> (\<forall>(c, g) \<in> set es. g \<in> set zs))"
proof (induct n cg f funcs and n cg es funcs arbitrary: r and r
       rule: doTopologicalSort_doTopologicalSort_edges.induct)
  case (1 cg funcOp funcs)
  then show ?case by simp
next
  case (2 depth cg funcOp funcs)
  show ?case
  proof
    assume "doTopologicalSort (Suc depth) cg funcOp funcs = Some r"
    then have "doTopologicalSort_edges depth cg (edges_of cg funcOp) (funcs @ [funcOp]) = Some r"
      by simp
    with 2 obtain zs where "r = (funcs @ [funcOp]) @ zs" "calleesFollow cg zs"
      "\<forall>(c, g) \<in> set (edges_of cg funcOp). g \<in> set zs" by blast
    then show "\<exists>zs. r = funcs @ funcOp # zs \<and> calleesFollow cg (funcOp # zs)" by simp
  qed
next
  case (3 depth cg funcs)
  then show ?case by simp
next
  case (4 depth cg callOp callee rest funcs)
  show ?case
  proof
    assume "doTopologicalSort_edges depth cg ((callOp, callee) # rest) funcs = Some r"
    then obtain funcs' where a: "doTopologicalSort depth cg callee funcs = Some funcs'"
      and b: "doTopologicalSort_edges depth cg rest funcs' = Some r"
      by (auto split: option.splits)
    from 4(1) a obtain zs where zs: "funcs' = funcs @ callee # zs" "calleesFollow cg (callee # zs)"
      by blast
    from 4(2) [OF a] b obtain zs' where zs': "r = funcs' @ zs'" "calleesFollow cg zs'"
      "\<forall>(c, g) \<in> set rest. g \<in> set zs'" by blast
    have "r = funcs @ (callee # zs) @ zs'" using zs(1) zs'(1) by simp
    moreover have "calleesFollow cg ((callee # zs) @ zs')"
      using zs(2) zs'(2) by (rule calleesFollow_append)
    moreover have "\<forall>(c, g) \<in> set ((callOp, callee) # rest). g \<in> set ((callee # zs) @ zs')"
      using zs'(3) by auto
    ultimately show "\<exists>zs. r = funcs @ zs \<and> calleesFollow cg zs
        \<and> (\<forall>(c, g) \<in> set ((callOp, callee) # rest). g \<in> set zs)" by blast
  qed
qed

lemma topologicalSort_roots_result:
  "topologicalSort_roots n cg rs funcs = Some r \<Longrightarrow> \<exists>zs. r = funcs @ zs \<and> calleesFollow cg zs"
proof (induction rs arbitrary: funcs)
  case Nil
  then show ?case by simp
next
  case (Cons rootOp rs)
  then obtain funcs' where a: "doTopologicalSort n cg rootOp funcs = Some funcs'"
    and b: "topologicalSort_roots n cg rs funcs' = Some r"
    by (auto split: option.splits)
  from doTopologicalSort_result(1) [of n cg rootOp funcs funcs'] a
  obtain zs where zs: "funcs' = funcs @ rootOp # zs" "calleesFollow cg (rootOp # zs)" by blast
  from Cons.IH [OF b] obtain zs' where zs': "r = funcs' @ zs'" "calleesFollow cg zs'" by blast
  have "r = funcs @ (rootOp # zs) @ zs'" using zs(1) zs'(1) by simp
  moreover have "calleesFollow cg ((rootOp # zs) @ zs')" using zs(2) zs'(2) by (rule calleesFollow_append)
  ultimately show ?case by blast
qed

lemma topologicalSort_roots_mono:
  "topologicalSort_roots n cg rs funcs = Some r \<Longrightarrow> topologicalSort_roots (n + k) cg rs funcs = Some r"
proof (induction rs arbitrary: funcs)
  case Nil
  then show ?case by simp
next
  case (Cons rootOp rs)
  then obtain funcs' where a: "doTopologicalSort n cg rootOp funcs = Some funcs'"
    and b: "topologicalSort_roots n cg rs funcs' = Some r"
    by (auto split: option.splits)
  from doTopologicalSort_mono(1) [OF a, of k] Cons.IH [OF b] show ?case by simp
qed

lemma topologicalSort_roots_total:
  assumes "acyclic (edgeRel cg)"
  shows "\<exists>n. \<forall>funcs. topologicalSort_roots n cg rs funcs \<noteq> None"
proof (induction rs)
  case Nil
  then show ?case by simp
next
  case (Cons rootOp rs)
  from doTopologicalSort_total [OF assms, of rootOp]
  obtain n1 where n1: "\<forall>funcs. doTopologicalSort n1 cg rootOp funcs \<noteq> None" ..
  from Cons obtain n2 where n2: "\<forall>funcs. topologicalSort_roots n2 cg rs funcs \<noteq> None" ..
  have "topologicalSort_roots (n1 + n2) cg (rootOp # rs) funcs \<noteq> None" for funcs
  proof -
    from n1 obtain funcs' where a: "doTopologicalSort n1 cg rootOp funcs = Some funcs'" by auto
    from n2 obtain r where b: "topologicalSort_roots n2 cg rs funcs' = Some r" by auto
    from doTopologicalSort_mono(1) [OF a, of n2] topologicalSort_roots_mono [OF b, of n1]
    show ?thesis by (simp add: add.commute)
  qed
  then show ?case by blast
qed

lemma setVector_insert_mem: "x \<in> set vec \<Longrightarrow> setVector_insert x vec = vec"
  by (simp add: setVector_insert_def)

lemma setVector_insert_new: "x \<notin> set vec \<Longrightarrow> setVector_insert x vec = vec @ [x]"
  by (simp add: setVector_insert_def)

lemma set_setVector_insert: "set (setVector_insert x vec) = insert x (set vec)"
  by (auto simp: setVector_insert_def)

lemma fold_setVector_insert_prefix: "\<exists>zs. fold setVector_insert xs acc = acc @ zs"
proof (induction xs arbitrary: acc)
  case Nil
  then show ?case by simp
next
  case (Cons x xs)
  from Cons [of "setVector_insert x acc"] obtain zs where
    zs: "fold setVector_insert xs (setVector_insert x acc) = setVector_insert x acc @ zs" ..
  show ?case
  proof (cases "x \<in> set acc")
    case True
    then show ?thesis using zs by (simp add: setVector_insert_mem)
  next
    case False
    then show ?thesis using zs by (simp add: setVector_insert_new)
  qed
qed

lemma fold_setVector_insert_before_mem:
  assumes "f \<in> set acc"
  shows "takeWhile (\<lambda>x. x \<noteq> f) (fold setVector_insert xs acc) = takeWhile (\<lambda>x. x \<noteq> f) acc"
proof -
  from fold_setVector_insert_prefix [of xs acc] obtain zs where
    "fold setVector_insert xs acc = acc @ zs" ..
  then show ?thesis using assms by (simp add: takeWhile_append1)
qed

lemma fold_setVector_insert_before:
  "f \<notin> set acc \<Longrightarrow>
     set (takeWhile (\<lambda>x. x \<noteq> f) (fold setVector_insert xs acc))
       = set acc \<union> set (takeWhile (\<lambda>x. x \<noteq> f) xs)"
proof (induction xs arbitrary: acc)
  case Nil
  then have "\<forall>x\<in>set acc. x \<noteq> f" by auto
  then show ?case by (simp add: takeWhile_eq_all_conv [THEN iffD2])
next
  case (Cons x xs)
  show ?case
  proof (cases "x = f")
    case True
    have "f \<in> set (setVector_insert f acc)" by (simp add: set_setVector_insert)
    from fold_setVector_insert_before_mem [OF this, of xs]
    have "takeWhile (\<lambda>x. x \<noteq> f) (fold setVector_insert xs (setVector_insert f acc))
            = takeWhile (\<lambda>x. x \<noteq> f) (acc @ [f])"
      using Cons.prems by (simp add: setVector_insert_new)
    also have "\<dots> = acc"
    proof -
      from Cons.prems have "\<forall>x\<in>set acc. x \<noteq> f" by auto
      then show ?thesis by (simp add: takeWhile_eq_all_conv [THEN iffD2])
    qed
    finally show ?thesis using True by simp
  next
    case False
    then have "f \<notin> set (setVector_insert x acc)" using Cons.prems
      by (simp add: set_setVector_insert)
    from Cons.IH [OF this] show ?thesis using False by (simp add: set_setVector_insert)
  qed
qed

lemma set_fold_setVector_insert: "set (fold setVector_insert xs acc) = set acc \<union> set xs"
  by (induction xs arbitrary: acc) (simp_all add: set_setVector_insert)

lemma calleesFollow_first_in_rev:
  assumes "calleesFollow cg funcs" "f \<in> set funcs" "(c, g) \<in> set (edges_of cg f)"
  shows "g \<in> set (takeWhile (\<lambda>x. x \<noteq> f) (rev funcs))"
proof -
  from assms(2) have "f \<in> set (rev funcs)" by simp
  from split_list_first [OF this] obtain as bs where s: "rev funcs = as @ f # bs" "f \<notin> set as"
    by blast
  from s(1) have "rev (rev funcs) = rev (as @ f # bs)" by (rule arg_cong)
  then have "funcs = rev bs @ f # rev as" by simp
  with assms(1,3) have "g \<in> set (rev as)" by (auto dest: calleesFollow_split)
  moreover have "takeWhile (\<lambda>x. x \<noteq> f) (rev funcs) = as"
  proof -
    from s(2) have "\<forall>x\<in>set as. x \<noteq> f" by auto
    then show ?thesis unfolding s(1) by (simp add: takeWhile_append2)
  qed
  ultimately show ?thesis by simp
qed

lemma topologicalSort_total:
  assumes "acyclic (edgeRel cg)"
  shows "\<exists>n. \<forall>m\<ge>n. \<exists>res. topologicalSort m cg = Some res"
proof -
  from topologicalSort_roots_total [OF assms, of "roots cg"]
  obtain n where n: "\<forall>funcs. topologicalSort_roots n cg (roots cg) funcs \<noteq> None" ..
  have "\<exists>res. topologicalSort m cg = Some res" if "n \<le> m" for m
  proof -
    from n obtain funcs where "topologicalSort_roots n cg (roots cg) [] = Some funcs" by auto
    from topologicalSort_roots_mono [OF this, of "m - n"] that
    show ?thesis by (simp add: topologicalSort_def)
  qed
  then show ?thesis by blast
qed

lemma topologicalSort_depth_irrelevant:
  assumes "topologicalSort n cg = Some r" "topologicalSort m cg = Some r'"
  shows "r = r'"
proof -
  from assms obtain funcs funcs' where
    a: "topologicalSort_roots n cg (roots cg) [] = Some funcs" "r = fold setVector_insert (rev funcs) []"
    and b: "topologicalSort_roots m cg (roots cg) [] = Some funcs'" "r' = fold setVector_insert (rev funcs') []"
    by (auto simp: topologicalSort_def split: option.splits)
  from topologicalSort_roots_mono [OF a(1), of m] topologicalSort_roots_mono [OF b(1), of n]
  have "funcs = funcs'" by (simp add: add.commute)
  with a(2) b(2) show ?thesis by simp
qed

lemma topologicalSort_order:
  assumes "topologicalSort depth cg = Some res" "(f, g) \<in> edgeRel cg" "f \<in> set res"
  shows "g \<in> set (takeWhile (\<lambda>x. x \<noteq> f) res)"
proof -
  from assms(1) obtain funcs where funcs: "topologicalSort_roots depth cg (roots cg) [] = Some funcs"
    and res: "res = fold setVector_insert (rev funcs) []"
    by (auto simp: topologicalSort_def split: option.splits)
  from topologicalSort_roots_result [OF funcs] have cf: "calleesFollow cg funcs" by simp
  from assms(3) res have mem: "f \<in> set funcs" by (simp add: set_fold_setVector_insert)
  from assms(2) obtain c where "(c, g) \<in> set (edges_of cg f)" by (auto simp: edgeRel_iff)
  with cf mem have "g \<in> set (takeWhile (\<lambda>x. x \<noteq> f) (rev funcs))"
    by (rule calleesFollow_first_in_rev)
  moreover have "set (takeWhile (\<lambda>x. x \<noteq> f) res) = set (takeWhile (\<lambda>x. x \<noteq> f) (rev funcs))"
    unfolding res using fold_setVector_insert_before [of f "[]" "rev funcs"] by simp
  ultimately show ?thesis by simp
qed

lemma topologicalSort_diamond: "topologicalSort 4 diamond = Some [5, 4, 3, 2, 1]"
  by (simp add: topologicalSort_def diamond_def edges_of_def setVector_insert_def
      eval_nat_numeral)

text \<open>
  C2: on an acyclic call graph \<^verbatim>\<open>topologicalSort\<close> returns, and in what it returns every
  callee precedes each of its callers: for a call edge from \<open>f\<close> to \<open>g\<close> with both
  in the result, \<open>g\<close> stands before \<open>f\<close>.
\<close>

theorem topologicalSort_callees_first:
  assumes "acyclic (edgeRel cg)"
  shows "(\<exists>depth res. topologicalSort depth cg = Some res)
       \<and> (\<forall>depth res f g. topologicalSort depth cg = Some res \<and> (f, g) \<in> edgeRel cg
              \<and> f \<in> set res \<and> g \<in> set res
            \<longrightarrow> g \<in> set (takeWhile (\<lambda>x. x \<noteq> f) res))"
proof
  from topologicalSort_total [OF assms] show "\<exists>depth res. topologicalSort depth cg = Some res"
    by blast
next
  show "\<forall>depth res f g. topologicalSort depth cg = Some res \<and> (f, g) \<in> edgeRel cg
              \<and> f \<in> set res \<and> g \<in> set res
            \<longrightarrow> g \<in> set (takeWhile (\<lambda>x. x \<noteq> f) res)"
    using topologicalSort_order by blast
qed

theorem topologicalSort_callees_first_witness:
  "acyclic (edgeRel diamond) \<and> topologicalSort 4 diamond = Some [5, 4, 3, 2, 1]
   \<and> (3, 4) \<in> edgeRel diamond
   \<and> 4 \<in> set (takeWhile (\<lambda>x. x \<noteq> 3) [5, 4, 3, 2, 1 :: nat])"
proof -
  note a = acyclic_diamond
  note t = topologicalSort_diamond
  have e: "(3, 4) \<in> edgeRel diamond" by (simp add: edgeRel_diamond)
  from topologicalSort_callees_first [OF a] t e
  have "4 \<in> set (takeWhile (\<lambda>x. x \<noteq> 3) [5, 4, 3, 2, 1 :: nat])" by simp
  with a t e show ?thesis by blast
qed

text \<open>
  C10: on an acyclic call graph \<^verbatim>\<open>topologicalSort\<close> terminates (every large enough bound
  on the recursion depth gives a result), and the recursion of \<^verbatim>\<open>doTopologicalSort\<close>
  returns from every function exactly when the call relation is acyclic.
\<close>

theorem topologicalSort_terminates:
  "(acyclic (edgeRel cg) \<longrightarrow> (\<exists>n. \<forall>m\<ge>n. \<exists>res. topologicalSort m cg = Some res))
   \<and> ((\<forall>f funcs. \<exists>n r. doTopologicalSort n cg f funcs = Some r) \<longleftrightarrow> acyclic (edgeRel cg))"
proof (intro conjI impI iffI)
  assume "acyclic (edgeRel cg)"
  then show "\<exists>n. \<forall>m\<ge>n. \<exists>res. topologicalSort m cg = Some res" by (rule topologicalSort_total)
next
  assume a: "acyclic (edgeRel cg)"
  show "\<forall>f funcs. \<exists>n r. doTopologicalSort n cg f funcs = Some r"
    using doTopologicalSort_total [OF a] by (metis not_None_eq)
next
  assume t: "\<forall>f funcs. \<exists>n r. doTopologicalSort n cg f funcs = Some r"
  show "acyclic (edgeRel cg)"
  proof (rule acyclicI, rule allI, rule notI)
    fix x assume "(x, x) \<in> (edgeRel cg)\<^sup>+"
    then have "cycleReachable cg x" by (auto simp: cycleReachable_def)
    then have "doTopologicalSort n cg x [] = None" for n
      using doTopologicalSort_cycle(1) [of cg x n "[]"] by blast
    with t show False by (metis option.distinct(1))
  qed
qed

theorem topologicalSort_terminates_witness:
  "acyclic (edgeRel diamond)
   \<and> (\<exists>n. \<forall>m\<ge>n. \<exists>res. topologicalSort m diamond = Some res)
   \<and> (\<forall>f funcs. \<exists>n r. doTopologicalSort n diamond f funcs = Some r)"
  using topologicalSort_terminates [of diamond] acyclic_diamond by blast

end
